theory Spec2Isabelle
  imports Main "HOL-Library.AList"
begin

section \<open>Text\<close>

text \<open>
  A Python \<open>str\<close> is a sequence of Unicode code points, so a string of the program is a
  list of code points here. \<open>ascii\<close> embeds an ASCII literal.
\<close>

type_synonym codepoint = nat
type_synonym ustr = "codepoint list"

definition ascii :: "string \<Rightarrow> ustr" where
  "ascii s = map of_char s"

text \<open>
  The two functions of Python's \<open>unicodedata\<close> module that \<open>normalize_key\<close> calls:
  \<open>unicodedata.normalize('NFD', s)\<close> and \<open>unicodedata.category(c)\<close>. They are the
  Unicode character database, which is not part of the repository, so they are parameters.
\<close>

record unicodedata =
  normalize_NFD :: "ustr \<Rightarrow> ustr"
  category :: "codepoint \<Rightarrow> ustr"

section \<open>normalize_key\<close>

definition underscore :: codepoint where
  "underscore = 95"

text \<open>The character class \<open>[a-zA-Z0-9]\<close>.\<close>

definition is_alnum :: "codepoint \<Rightarrow> bool" where
  "is_alnum c \<longleftrightarrow> (97 \<le> c \<and> c \<le> 122) \<or> (65 \<le> c \<and> c \<le> 90) \<or> (48 \<le> c \<and> c \<le> 57)"

text \<open>
  \<open>''.join(c for c in unicodedata.normalize('NFD', key) if unicodedata.category(c) != 'Mn')\<close>
\<close>

definition drop_marks :: "unicodedata \<Rightarrow> ustr \<Rightarrow> ustr" where
  "drop_marks ud key = filter (\<lambda>c. category ud c \<noteq> ascii ''Mn'') (normalize_NFD ud key)"

text \<open>\<open>re.sub(r'[^a-zA-Z0-9]', '_', key)\<close>\<close>

definition sub_non_alnum :: "ustr \<Rightarrow> ustr" where
  "sub_non_alnum key = map (\<lambda>c. if is_alnum c then c else underscore) key"

text \<open>
  \<open>re.sub(r'_+', '_', key)\<close>: scanning from the left, every maximal run of underscores is
  replaced by one underscore.
\<close>

function sub_underscore_runs :: "ustr \<Rightarrow> ustr" where
  "sub_underscore_runs [] = []"
| "sub_underscore_runs (c # cs) =
     (if c = underscore
      then underscore # sub_underscore_runs (dropWhile (\<lambda>x. x = underscore) cs)
      else c # sub_underscore_runs cs)"
  by pat_completeness auto
termination
  by (relation "measure length") (auto simp: less_Suc_eq_le length_dropWhile_le)

text \<open>\<open>key.strip('_')\<close>\<close>

definition strip_underscores :: "ustr \<Rightarrow> ustr" where
  "strip_underscores key =
     rev (dropWhile (\<lambda>x. x = underscore) (rev (dropWhile (\<lambda>x. x = underscore) key)))"

text \<open>
  \<open>str.lower()\<close>. The string it is applied to holds only \<open>[a-zA-Z0-9_]\<close> (the result of the
  two substitutions), where lowering maps \<open>A-Z\<close> to \<open>a-z\<close> and leaves the rest.
\<close>

definition lower :: "ustr \<Rightarrow> ustr" where
  "lower key = map (\<lambda>c. if 65 \<le> c \<and> c \<le> 90 then c + 32 else c) key"

definition normalize_key :: "unicodedata \<Rightarrow> ustr \<Rightarrow> ustr" where
  "normalize_key ud key =
     lower (strip_underscores (sub_underscore_runs (sub_non_alnum (drop_marks ud key))))"

text \<open>The character class \<open>[a-z0-9_]\<close> of a normalized key.\<close>

definition key_char :: "codepoint \<Rightarrow> bool" where
  "key_char c \<longleftrightarrow> (97 \<le> c \<and> c \<le> 122) \<or> (48 \<le> c \<and> c \<le> 57) \<or> c = underscore"

text \<open>Two underscores next to each other somewhere in the string.\<close>

fun repeated_underscore :: "ustr \<Rightarrow> bool" where
  "repeated_underscore (a # b # cs) =
     ((a = underscore \<and> b = underscore) \<or> repeated_underscore (b # cs))"
| "repeated_underscore cs = False"

text \<open>
  A fragment of the Unicode tables, for evaluating examples: the canonical decompositions
  of a few accented Latin letters, and the combining diacritical marks U+0300..U+036F as
  the characters of category \<open>Mn\<close>.
\<close>

definition sample_decomposition :: "codepoint \<Rightarrow> ustr" where
  "sample_decomposition c =
     (if c = 225 then [97, 769] else if c = 227 then [97, 771]
      else if c = 231 then [99, 807] else if c = 233 then [101, 769]
      else if c = 218 then [85, 769] else [c])"

definition sample_unicodedata :: unicodedata where
  "sample_unicodedata =
     \<lparr> normalize_NFD = (\<lambda>s. concat (map sample_decomposition s)),
       category = (\<lambda>c. if 768 \<le> c \<and> c \<le> 879 then ascii ''Mn'' else ascii ''Xx'') \<rparr>"

text \<open>
  What the normalizer needs of the Unicode tables on ASCII text: NFD leaves an ASCII string
  as it is, and no ASCII character is a combining mark.
\<close>

definition ascii_stable :: "unicodedata \<Rightarrow> bool" where
  "ascii_stable ud \<longleftrightarrow>
     (\<forall>s. (\<forall>c \<in> set s. c < 128) \<longrightarrow> normalize_NFD ud s = s)
     \<and> (\<forall>c. c < 128 \<longrightarrow> category ud c \<noteq> ascii ''Mn'')"

section \<open>Rows and snapshots\<close>

text \<open>
  A cell value of an Extracted Row: \<open>None\<close>, a string, or a list of strings (the UF lists
  of the reference data). A row is a Python \<open>dict\<close> with string keys, kept as an association
  list in insertion order; \<open>AList.update\<close> is \<open>row[key] = v\<close> (an existing key keeps its
  place, a new key goes to the end).
\<close>

datatype jval = JNone | JStr ustr | JList "ustr list"

type_synonym row = "(ustr \<times> jval) list"

text \<open>\<open>bool(v)\<close> of a cell value.\<close>

fun truthy :: "jval \<Rightarrow> bool" where
  "truthy JNone = False"
| "truthy (JStr s) = (s \<noteq> [])"
| "truthy (JList l) = (l \<noteq> [])"

text \<open>\<open>row.get(key)\<close>: a missing key gives \<open>None\<close>.\<close>

definition row_get :: "row \<Rightarrow> ustr \<Rightarrow> jval" where
  "row_get r key = (case map_of r key of None \<Rightarrow> JNone | Some v \<Rightarrow> v)"

text \<open>
  \<open>a == b\<close> on dicts: the same keys with equal values, whatever the insertion order.
\<close>

definition dict_eq :: "row \<Rightarrow> row \<Rightarrow> bool" where
  "dict_eq a b \<longleftrightarrow>
     list_all (\<lambda>(k, v). map_of b k = map_of a k) a
     \<and> list_all (\<lambda>(k, v). map_of a k = map_of b k) b"

text \<open>A dict display or comprehension: later items overwrite earlier ones with the same key.\<close>

definition py_dict :: "(ustr \<times> 'v) list \<Rightarrow> (ustr \<times> 'v) list" where
  "py_dict items = fold (\<lambda>(k, v). AList.update k v) items []"

text \<open>\<open>d.update(other)\<close>\<close>

definition dict_update :: "(ustr \<times> 'v) list \<Rightarrow> (ustr \<times> 'v) list \<Rightarrow> (ustr \<times> 'v) list" where
  "dict_update d other = fold (\<lambda>(k, v). AList.update k v) other d"

record NFEResult =
  checked_at :: "ustr option"
  statuses :: "row list"
  success :: bool
  error_message :: "ustr option"

section \<open>Time\<close>

text \<open>
  A \<open>datetime\<close>: the wall-clock reading in microseconds, and the offset of its zone from
  UTC (\<open>None\<close> for a naive value). An instant is a number of microseconds on the UTC axis.
  The parsing and printing functions of the \<open>datetime\<close> and \<open>re\<close> modules are parameters:
  \<open>ts_re_search\<close> is \<open>TS_RE.search(text)\<close> with \<open>group(1)\<close> taken, \<open>strptime\<close> is
  \<open>datetime.strptime(s, "%d/%m/%Y %H:%M:%S")\<close>, and \<open>None\<close> from a parser is its
  \<open>ValueError\<close>.
\<close>

type_synonym instant = int

record datetime =
  wall_clock :: int
  utcoffset :: "int option"

record datetime_lib =
  ts_re_search :: "ustr \<Rightarrow> ustr option"
  strptime :: "ustr \<Rightarrow> datetime option"
  isoformat :: "datetime \<Rightarrow> ustr"
  fromisoformat :: "ustr \<Rightarrow> datetime option"

text \<open>\<open>ts.replace(tzinfo=timezone.utc)\<close>\<close>

definition replace_tzinfo_utc :: "datetime \<Rightarrow> datetime" where
  "replace_tzinfo_utc ts = ts\<lparr>utcoffset := Some 0\<rparr>"

text \<open>\<open>ts.astimezone(timezone.utc)\<close> of an aware value, as an instant.\<close>

definition astimezone_utc :: "datetime \<Rightarrow> instant" where
  "astimezone_utc ts = (case utcoffset ts of None \<Rightarrow> wall_clock ts | Some off \<Rightarrow> wall_clock ts - off)"

text \<open>
  The instant \<open>persist\<close> stamps its records with:
  \<open>if ts.tzinfo is None: ts = ts.replace(tzinfo=timezone.utc)\<close>, then
  \<open>ts.astimezone(timezone.utc)\<close>.
\<close>

definition utc_instant :: "datetime \<Rightarrow> instant" where
  "utc_instant ts =
     astimezone_utc (if utcoffset ts = None then replace_tzinfo_utc ts else ts)"

text \<open>\<open>timedelta(days=n)\<close> in microseconds.\<close>

definition timedelta_days :: "int \<Rightarrow> int" where
  "timedelta_days n = n * 86400000000"

section \<open>The history store\<close>

text \<open>
  One row of the table created by \<open>init_db\<close>. \<open>status_json\<close> holds \<open>json.dumps(row)\<close>, and
  the only reader applies \<open>json.loads\<close> to it; on rows of strings, nulls and string lists
  the two are inverse, so the column is modelled by the row it encodes. \<open>is_current\<close> is
  the INTEGER flag. Strings are taken to be text the TEXT columns accept. The store is the table with the counter of its SERIAL \<open>id\<close> column,
  which starts at 1 and which PostgreSQL does not rewind when a transaction rolls back.
\<close>

record history_record =
  rec_id :: nat
  autorizador :: ustr
  status_json :: row
  valid_from :: instant
  valid_to :: "instant option"
  is_current :: int

record db =
  table_rows :: "history_record list"
  next_id :: nat

definition empty_db :: db where
  "empty_db = \<lparr> table_rows = [], next_id = 1 \<rparr>"

record config =
  RETENTION_MAX_DAYS :: int

text \<open>
  Where a run meets an exception of the database or the clock. For \<open>persist\<close>: the
  connection cannot be opened (after the retries), a statement of the loop raises while the
  row with the given index is processed, or the commit raises. For the retention step:
  building \<open>now\<close> raises (it stands before the \<open>try\<close>), or something inside the \<open>try\<close> block
  raises (connecting, the DELETE, the commit).
\<close>

datatype db_fault = Connect_fails | Statement_fails nat | Commit_fails

datatype retention_fault = Clock_raises | Retention_raises

record env =
  now :: instant
  db_fault :: "db_fault option"
  retention_fault :: "retention_fault option"

subsection \<open>status_changed\<close>

definition status_changed :: "row \<Rightarrow> row \<Rightarrow> bool" where
  "status_changed prev_status new_status \<longleftrightarrow> \<not> dict_eq prev_status new_status"

subsection \<open>The statements of persist\<close>

text \<open>
  \<open>SELECT id, status_json, valid_from FROM t WHERE autorizador=%s AND is_current=1
  ORDER BY valid_from DESC LIMIT 1\<close>, then \<open>fetchone()\<close>. Among rows with the same greatest
  \<open>valid_from\<close> SQL leaves the choice open; the model takes the first in table order.
\<close>

definition select_current :: "history_record list \<Rightarrow> ustr \<Rightarrow> history_record option" where
  "select_current rs a =
     (case filter (\<lambda>r. autorizador r = a \<and> is_current r = 1) rs of
        [] \<Rightarrow> None
      | c # cs \<Rightarrow> Some (fold (\<lambda>r best. if valid_from best < valid_from r then r else best) cs c))"

text \<open>\<open>UPDATE t SET valid_to=%s, is_current=0 WHERE id=%s\<close>\<close>

definition update_close :: "instant \<Rightarrow> nat \<Rightarrow> history_record list \<Rightarrow> history_record list" where
  "update_close ts i rs =
     map (\<lambda>r. if rec_id r = i then r\<lparr>valid_to := Some ts, is_current := 0\<rparr> else r) rs"

text \<open>
  \<open>INSERT INTO t (autorizador, status_json, valid_from, valid_to, is_current)
  VALUES (%s, %s, %s, NULL, 1)\<close>
\<close>

definition insert_current :: "ustr \<Rightarrow> row \<Rightarrow> instant \<Rightarrow> db \<Rightarrow> db" where
  "insert_current a r ts d =
     d\<lparr> table_rows := table_rows d @
           [\<lparr> rec_id = next_id d, autorizador = a, status_json = r, valid_from = ts,
              valid_to = None, is_current = 1 \<rparr>],
        next_id := Suc (next_id d) \<rparr>"

text \<open>The body of the loop of \<open>persist\<close> for a row whose \<open>autorizador\<close> is the string \<open>a\<close>.\<close>

definition scd2_row :: "instant \<Rightarrow> ustr \<Rightarrow> row \<Rightarrow> db \<Rightarrow> db" where
  "scd2_row ts a r d =
     (let current = select_current (table_rows d) a;
          changed = (case current of None \<Rightarrow> True
                     | Some c \<Rightarrow> status_changed (status_json c) r)
      in if changed
         then insert_current a r ts
                (case current of None \<Rightarrow> d
                 | Some c \<Rightarrow> d\<lparr>table_rows := update_close ts (rec_id c) (table_rows d)\<rparr>)
         else d)"

text \<open>
  The loop over \<open>data.statuses\<close>, from the row with index \<open>i\<close> on. The result is whether the
  loop ended without an exception, and the state of the open transaction. A row whose
  \<open>autorizador\<close> is missing or falsy is skipped before any statement. A list is not a value
  the TEXT column can be compared with: the SELECT raises.
\<close>

fun scd2_loop :: "db_fault option \<Rightarrow> instant \<Rightarrow> nat \<Rightarrow> row list \<Rightarrow> db \<Rightarrow> bool \<times> db" where
  "scd2_loop f ts i [] d = (True, d)"
| "scd2_loop f ts i (r # rest) d =
     (let a = row_get r (ascii ''autorizador'') in
      if \<not> truthy a then scd2_loop f ts (Suc i) rest d
      else if f = Some (Statement_fails i) then (False, d)
      else (case a of
              JStr s \<Rightarrow> scd2_loop f ts (Suc i) rest (scd2_row ts s r d)
            | _ \<Rightarrow> (False, d)))"

subsection \<open>apply_retention_policy\<close>

text \<open>The WHERE clause \<open>valid_to IS NOT NULL AND valid_to < cutoff\<close>.\<close>

definition expired :: "instant \<Rightarrow> history_record \<Rightarrow> bool" where
  "expired cutoff r = (case valid_to r of None \<Rightarrow> False | Some t \<Rightarrow> t < cutoff)"

text \<open>
  The result is \<open>None\<close> when the exception of the clock leaves the function, and the store
  otherwise: pruned, or as it was when the \<open>except\<close> clause swallowed a failure.
\<close>

definition apply_retention_policy :: "config \<Rightarrow> env \<Rightarrow> db \<Rightarrow> db option" where
  "apply_retention_policy cfg e d =
     (case retention_fault e of
        Some Clock_raises \<Rightarrow> None
      | Some Retention_raises \<Rightarrow> Some d
      | None \<Rightarrow>
          (let cutoff = now e - timedelta_days (RETENTION_MAX_DAYS cfg)
           in Some (d\<lparr>table_rows := filter (\<lambda>r. \<not> expired cutoff r) (table_rows d)\<rparr>)))"

subsection \<open>persist\<close>

text \<open>
  Closing the connection without a commit: the table is as before the transaction, the
  counter of the ids stays where the transaction left it.
\<close>

definition rollback :: "db \<Rightarrow> db \<Rightarrow> db" where
  "rollback d d' = d\<lparr>next_id := next_id d'\<rparr>"

definition persist :: "config \<Rightarrow> datetime_lib \<Rightarrow> env \<Rightarrow> NFEResult \<Rightarrow> db \<Rightarrow> bool \<times> db" where
  "persist cfg lib e data d =
     (case checked_at data of
        None \<Rightarrow> (False, d)
      | Some stamp \<Rightarrow>
          if \<not> success data \<or> stamp = [] then (False, d)
          else if db_fault e = Some Connect_fails then (False, d)
          else (case fromisoformat lib stamp of
                  None \<Rightarrow> (False, d)
                | Some parsed \<Rightarrow>
                    (let ts_str = utc_instant parsed;
                         (ok, d') = scd2_loop (db_fault e) ts_str 0 (statuses data) d
                     in if \<not> ok \<or> db_fault e = Some Commit_fails then (False, rollback d d')
                        else (case apply_retention_policy cfg e d' of
                                None \<Rightarrow> (False, d')
                              | Some d'' \<Rightarrow> (True, d'')))))"

subsection \<open>Sequences of operations on the store\<close>

datatype store_op = Persist env NFEResult | Retention env

fun run_op :: "config \<Rightarrow> datetime_lib \<Rightarrow> store_op \<Rightarrow> db \<Rightarrow> db" where
  "run_op cfg lib (Persist e data) d = snd (persist cfg lib e data d)"
| "run_op cfg lib (Retention e) d =
     (case apply_retention_policy cfg e d of None \<Rightarrow> d | Some d' \<Rightarrow> d')"

definition run_ops :: "config \<Rightarrow> datetime_lib \<Rightarrow> store_op list \<Rightarrow> db \<Rightarrow> db" where
  "run_ops cfg lib ops d = fold (run_op cfg lib) ops d"

text \<open>
  The invariant of the history: the current records have pairwise different
  \<open>autorizador\<close> values, and a current record has no \<open>valid_to\<close>.
\<close>

definition scd2_inv :: "history_record list \<Rightarrow> bool" where
  "scd2_inv rs \<longleftrightarrow>
     distinct (map autorizador (filter (\<lambda>r. is_current r = 1) rs))
     \<and> list_all (\<lambda>r. is_current r = 1 \<longrightarrow> valid_to r = None) rs"

text \<open>The guarantees of the primary key and its counter.\<close>

definition wf_db :: "db \<Rightarrow> bool" where
  "wf_db d \<longleftrightarrow>
     distinct (map rec_id (table_rows d)) \<and> list_all (\<lambda>r. rec_id r < next_id d) (table_rows d)"

text \<open>The entity a row of a snapshot is persisted for, if any.\<close>

definition entity_of :: "row \<Rightarrow> ustr option" where
  "entity_of r =
     (case row_get r (ascii ''autorizador'') of
        JStr s \<Rightarrow> if s = [] then None else Some s
      | _ \<Rightarrow> None)"

text \<open>The records of one entity, and its current ones.\<close>

definition history_of :: "ustr \<Rightarrow> db \<Rightarrow> history_record list" where
  "history_of a d = filter (\<lambda>r. autorizador r = a) (table_rows d)"

definition currents_of :: "ustr \<Rightarrow> db \<Rightarrow> history_record list" where
  "currents_of a d = filter (\<lambda>r. autorizador r = a \<and> is_current r = 1) (table_rows d)"

section \<open>Extraction\<close>

text \<open>
  What \<open>parse_and_enrich\<close> reads of the document BeautifulSoup builds: of the table its
  caption text (\<open>caption.get_text(separator=" ")\<close>) and its \<open>tr\<close> elements; of a \<open>tr\<close> the
  stripped texts of its \<open>th\<close> elements and its \<open>td\<close> elements; of a \<open>td\<close> its first \<open>img\<close>
  (with the \<open>src\<close> attribute, which may be missing) and its stripped text.
\<close>

datatype img = Img "ustr option"

record td =
  td_img :: "img option"
  td_text :: ustr

record tr =
  th_texts :: "ustr list"
  tds :: "td list"

record table =
  caption :: "ustr option"
  trs :: "tr list"

definition IMG_MAP :: "(ustr \<times> ustr) list" where
  "IMG_MAP =
     [(ascii ''bola_verde_P.png'', ascii ''verde''),
      (ascii ''bola_amarela_P.png'', ascii ''amarelo''),
      (ascii ''bola_vermelho_P.png'', ascii ''vermelho''),
      (ascii ''bola_cinza_P.png'', ascii ''cinza'')]"

definition AUTORIZADOR_INFO :: "(ustr \<times> row) list" where
  "AUTORIZADOR_INFO =
     [(ascii ''SVAN'',
        [(ascii ''tipo'', JStr (ascii ''Sefaz Virtual Ambiente Nacional'')),
         (ascii ''ufs_autorizador'', JList [ascii ''MA''])]),
      (ascii ''SVRS'',
        [(ascii ''tipo'', JStr (ascii ''Sefaz Virtual Rio Grande do Sul'')),
         (ascii ''ufs_autorizador'', JList (map ascii
            [''AC'', ''AL'', ''AP'', ''CE'', ''DF'', ''ES'', ''PA'', ''PB'', ''PI'', ''RJ'',
             ''RN'', ''RO'', ''RR'', ''SC'', ''SE'', ''TO''])),
         (ascii ''ufs_consulta_cadastro'', JList (map ascii
            [''AC'', ''ES'', ''RN'', ''PB'', ''SC'']))]),
      (ascii ''SVC-AN'',
        [(ascii ''tipo'', JStr (ascii ''Conting'' @ [234] @ ascii ''ncia Nacional'')),
         (ascii ''ufs_contingencia'', JList (map ascii
            [''AC'', ''AL'', ''AP'', ''CE'', ''DF'', ''ES'', ''MG'', ''PA'', ''PB'', ''PI'',
             ''RJ'', ''RN'', ''RO'', ''RR'', ''RS'', ''SC'', ''SE'', ''SP'', ''TO'']))]),
      (ascii ''SVC-RS'',
        [(ascii ''tipo'', JStr (ascii ''Conting'' @ [234] @ ascii ''ncia RS'')),
         (ascii ''ufs_contingencia'', JList (map ascii
            [''AM'', ''BA'', ''GO'', ''MA'', ''MS'', ''MT'', ''PE'', ''PR'']))])]"

text \<open>The status vocabulary: the values of \<open>IMG_MAP\<close> and the word for an unknown image.\<close>

definition status_words :: "ustr list" where
  "status_words = map ascii [''verde'', ''amarelo'', ''vermelho'', ''cinza'', ''desconhecido'']"

definition status_word :: "jval \<Rightarrow> bool" where
  "status_word v \<longleftrightarrow> (\<exists>w \<in> set status_words. v = JStr w)"

text \<open>The keys of the entries of \<open>AUTORIZADOR_INFO\<close>, and the key of the back-reference.\<close>

definition meta_keys :: "ustr list" where
  "meta_keys = map ascii [''tipo'', ''ufs_autorizador'', ''ufs_consulta_cadastro'',
     ''ufs_contingencia'', ''relacionado_a'']"

subsection \<open>validate_table\<close>

definition validate_table :: "table option \<Rightarrow> bool" where
  "validate_table t =
     (case t of
        None \<Rightarrow> False
      | Some tb \<Rightarrow>
          (case trs tb of
             [] \<Rightarrow> False
           | headers # _ \<Rightarrow>
               if length (th_texts headers) < 2 then False
               else if \<not> list_ex (\<lambda>header. header \<in> set (th_texts headers))
                            [ascii ''Autorizador'', ascii ''Status'']
               then False
               else True))"

subsection \<open>parse_timestamp\<close>

definition parse_timestamp :: "datetime_lib \<Rightarrow> ustr option \<Rightarrow> datetime option" where
  "parse_timestamp lib cap =
     (case cap of
        None \<Rightarrow> None
      | Some caption_text \<Rightarrow>
          (case ts_re_search lib caption_text of
             None \<Rightarrow> None
           | Some m \<Rightarrow> strptime lib m))"

subsection \<open>parse_and_enrich\<close>

text \<open>\<open>src.split("/")[-1]\<close>\<close>

definition last_segment :: "ustr \<Rightarrow> ustr" where
  "last_segment s = rev (takeWhile (\<lambda>c. c \<noteq> 47) (rev s))"

text \<open>The value \<open>row[key]\<close> receives for a cell; \<open>None\<close> is the KeyError of \<open>img["src"]\<close>.\<close>

definition cell_value :: "td \<Rightarrow> jval option" where
  "cell_value cell =
     (case td_img cell of
        Some (Img None) \<Rightarrow> None
      | Some (Img (Some src)) \<Rightarrow>
          Some (JStr (case map_of IMG_MAP (last_segment src) of
                        Some s \<Rightarrow> s
                      | None \<Rightarrow> ascii ''desconhecido''))
      | None \<Rightarrow> Some (if td_text cell = [] then JNone else JStr (td_text cell)))"

text \<open>
  The loop over the cells of a row, with the headers still to come, the row built so far
  and the value of \<open>autorizador\<close>. \<open>None\<close> is an exception, which the caller turns into a
  skipped row.
\<close>

fun parse_cells :: "unicodedata \<Rightarrow> ustr list \<Rightarrow> td list \<Rightarrow> row \<Rightarrow> jval \<Rightarrow> (row \<times> jval) option" where
  "parse_cells ud hs [] r a = Some (r, a)"
| "parse_cells ud [] (cell # cells) r a = None"
| "parse_cells ud (h # hs) (cell # cells) r a =
     (let key = normalize_key ud h in
      case cell_value cell of
        None \<Rightarrow> None
      | Some v \<Rightarrow>
          parse_cells ud hs cells (AList.update key v r)
            (if key = ascii ''autorizador'' then v else a))"

text \<open>\<open>isinstance(val, list) and autorizador in val\<close> for some value of the entry.\<close>

definition entry_contains :: "row \<Rightarrow> jval \<Rightarrow> bool" where
  "entry_contains info a =
     list_ex (\<lambda>(k, val). case val of
                           JList l \<Rightarrow> (case a of JStr s \<Rightarrow> s \<in> set l | _ \<Rightarrow> False)
                         | _ \<Rightarrow> False) info"

text \<open>
  The loop over \<open>AUTORIZADOR_INFO.items()\<close>. The \<open>break\<close> leaves the loop over the values of
  one entry; the loop over the entries goes on to the end.
\<close>

fun scan_related :: "(ustr \<times> row) list \<Rightarrow> jval \<Rightarrow> row \<Rightarrow> row" where
  "scan_related [] a meta = meta"
| "scan_related ((code, info) # rest) a meta =
     scan_related rest a
       (if entry_contains info a then [(ascii ''relacionado_a'', JStr code)] else meta)"

definition enrich_meta :: "jval \<Rightarrow> row" where
  "enrich_meta a =
     (let meta = (case a of
                    JStr s \<Rightarrow> (case map_of AUTORIZADOR_INFO s of Some m \<Rightarrow> m | None \<Rightarrow> [])
                  | _ \<Rightarrow> [])
      in if meta = [] then scan_related AUTORIZADOR_INFO a meta else meta)"

text \<open>One data row; \<open>None\<close> when the row is skipped.\<close>

definition parse_row :: "unicodedata \<Rightarrow> ustr list \<Rightarrow> tr \<Rightarrow> row option" where
  "parse_row ud headers t =
     (if length (tds t) \<noteq> length headers then None
      else (case parse_cells ud headers (tds t) [] JNone of
              None \<Rightarrow> None
            | Some (r, a) \<Rightarrow>
                Some (dict_update r (py_dict (map (\<lambda>(k, v). (normalize_key ud k, v)) (enrich_meta a))))))"

definition parse_and_enrich :: "unicodedata \<Rightarrow> datetime_lib \<Rightarrow> table option \<Rightarrow> NFEResult" where
  "parse_and_enrich ud lib t =
     (if \<not> validate_table t
      then \<lparr> checked_at = None, statuses = [], success = False,
             error_message = Some (ascii ''Invalid table structure'') \<rparr>
      else (case t of
              Some tb \<Rightarrow>
                (case trs tb of
                   header_row # data_rows \<Rightarrow>
                     \<lparr> checked_at = map_option (isoformat lib) (parse_timestamp lib (caption tb)),
                        statuses = List.map_filter (parse_row ud (th_texts header_row)) data_rows,
                        success = True, error_message = None \<rparr>
                 | [] \<Rightarrow> \<lparr> checked_at = None, statuses = [], success = False,
                           error_message = Some [] \<rparr>)
            | None \<Rightarrow> \<lparr> checked_at = None, statuses = [], success = False,
                         error_message = Some [] \<rparr>))"

section \<open>Export\<close>

text \<open>
  The JSON document \<open>save_json\<close> writes, and the two places it touches: the file at
  \<open>JSON_PATH\<close> (\<open>None\<close> while it does not exist) and the temporary files left in its
  directory (\<open>None\<close> for one whose content was not written to the end).
\<close>

datatype export_json =
  ExText "ustr option" | ExNum nat | ExRows "row list" | ExObj "(ustr \<times> export_json) list"

record filesystem =
  json_file :: "export_json option"
  temp_files :: "export_json option list"

datatype io_fault = Makedirs_fails | Tempfile_fails | Dump_fails | Replace_fails

record export_env =
  generated_at :: ustr
  io_fault :: "io_fault option"

definition export_document :: "unicodedata \<Rightarrow> export_env \<Rightarrow> NFEResult \<Rightarrow> export_json" where
  "export_document ud e data =
     ExObj (py_dict
       [(normalize_key ud (ascii ''checked_at''), ExText (checked_at data)),
        (normalize_key ud (ascii ''statuses''), ExRows (statuses data)),
        (normalize_key ud (ascii ''metadata''), ExObj (py_dict
           [(normalize_key ud (ascii ''total_records''), ExNum (length (statuses data))),
            (normalize_key ud (ascii ''generated_at''), ExText (Some (generated_at e))),
            (normalize_key ud (ascii ''version''), ExText (Some (ascii ''2.0'')))]))])"

definition save_json :: "unicodedata \<Rightarrow> export_env \<Rightarrow> NFEResult \<Rightarrow> filesystem \<Rightarrow> bool \<times> filesystem" where
  "save_json ud e data fs =
     (if \<not> success data then (False, fs)
      else (case io_fault e of
              Some Makedirs_fails \<Rightarrow> (False, fs)
            | Some Tempfile_fails \<Rightarrow> (False, fs)
            | Some Dump_fails \<Rightarrow> (False, fs\<lparr>temp_files := None # temp_files fs\<rparr>)
            | Some Replace_fails \<Rightarrow>
                (False, fs\<lparr>temp_files := Some (export_document ud e data) # temp_files fs\<rparr>)
            | None \<Rightarrow> (True, fs\<lparr>json_file := Some (export_document ud e data)\<rparr>)))"

section \<open>Sample data for the evaluated examples\<close>

text \<open>
  The parsers on the two stamps of the examples, 2024-01-15 10:30:00 and 11:30:00 (naive,
  so read as UTC), and on the caption that carries the first.
\<close>

definition T1 :: instant where
  "T1 = 1705314600000000"

definition T2 :: instant where
  "T2 = 1705318200000000"

definition sample_caption :: ustr where
  "sample_caption = [218] @ ascii ''ltima Verifica'' @ [231, 227] @ ascii ''o: 15/01/2024 10:30:00''"

definition sample_lib :: datetime_lib where
  "sample_lib =
     \<lparr> ts_re_search = (\<lambda>s. if s = sample_caption then Some (ascii ''15/01/2024 10:30:00'') else None),
       strptime = (\<lambda>s. if s = ascii ''15/01/2024 10:30:00''
                        then Some \<lparr> wall_clock = T1, utcoffset = None \<rparr> else None),
       isoformat = (\<lambda>t. if wall_clock t = T1 then ascii ''2024-01-15T10:30:00''
                         else if wall_clock t = T2 then ascii ''2024-01-15T11:30:00'' else []),
       fromisoformat = (\<lambda>s. if s = ascii ''2024-01-15T10:30:00''
                             then Some \<lparr> wall_clock = T1, utcoffset = None \<rparr>
                             else if s = ascii ''2024-01-15T11:30:00''
                             then Some \<lparr> wall_clock = T2, utcoffset = None \<rparr>
                             else None) \<rparr>"

definition sample_config :: config where
  "sample_config = \<lparr> RETENTION_MAX_DAYS = 30 \<rparr>"

text \<open>A run at the given instant in which nothing raises.\<close>

definition quiet :: "instant \<Rightarrow> env" where
  "quiet t = \<lparr> now = t, db_fault = None, retention_fault = None \<rparr>"

definition row_verde :: row where
  "row_verde = [(ascii ''autorizador'', JStr (ascii ''SVAN'')), (ascii ''status'', JStr (ascii ''verde''))]"

definition row_amarelo :: row where
  "row_amarelo = [(ascii ''autorizador'', JStr (ascii ''SVAN'')), (ascii ''status'', JStr (ascii ''amarelo''))]"

definition snapshot_A :: NFEResult where
  "snapshot_A = \<lparr> checked_at = Some (ascii ''2024-01-15T10:30:00''), statuses = [row_verde],
                   success = True, error_message = None \<rparr>"

definition snapshot_B :: NFEResult where
  "snapshot_B = \<lparr> checked_at = Some (ascii ''2024-01-15T11:30:00''), statuses = [row_amarelo],
                   success = True, error_message = None \<rparr>"

text \<open>The store after snapshot A, and after snapshot B on top of it.\<close>

definition record_verde :: history_record where
  "record_verde = \<lparr> rec_id = 1, autorizador = ascii ''SVAN'', status_json = row_verde,
                     valid_from = T1, valid_to = None, is_current = 1 \<rparr>"

definition record_amarelo :: history_record where
  "record_amarelo = \<lparr> rec_id = 2, autorizador = ascii ''SVAN'', status_json = row_amarelo,
                       valid_from = T2, valid_to = None, is_current = 1 \<rparr>"

definition db_A :: db where
  "db_A = \<lparr> table_rows = [record_verde], next_id = 2 \<rparr>"

definition db_AB :: db where
  "db_AB = \<lparr> table_rows = [record_verde\<lparr>valid_to := Some T2, is_current := 0\<rparr>, record_amarelo],
              next_id = 3 \<rparr>"

text \<open>
  A successful snapshot without a timestamp (a valid table whose caption does not parse), a
  failed one, an empty export directory and an export in which nothing raises.
\<close>

definition snapshot_no_stamp :: NFEResult where
  "snapshot_no_stamp = \<lparr> checked_at = None, statuses = [row_verde], success = True,
                          error_message = None \<rparr>"

definition snapshot_failed :: NFEResult where
  "snapshot_failed = \<lparr> checked_at = None, statuses = [], success = False,
                        error_message = Some (ascii ''Invalid table structure'') \<rparr>"

definition empty_fs :: filesystem where
  "empty_fs = \<lparr> json_file = None, temp_files = [] \<rparr>"

definition export_quiet :: export_env where
  "export_quiet = \<lparr> generated_at = ascii ''2024-01-15T10:31:00-03:00'', io_fault = None \<rparr>"


text \<open>A snapshot with two different rows for the same entity.\<close>

definition snapshot_dup :: NFEResult where
  "snapshot_dup = \<lparr> checked_at = Some (ascii ''2024-01-15T10:30:00''),
                     statuses = [row_verde, row_amarelo], success = True, error_message = None \<rparr>"

text \<open>
  Two tables that pass validation. The first has the header labels \<open>Autorizador\<close> and
  \<open>Status\<close> and rows for \<open>SVAN\<close> and \<open>MA\<close>. The second has \<open>Autorizador\<close> and
  \<open>Autorizacao4\<close> (with its cedilla and tilde), a column of the published page, and no \<open>Status\<close> label.
\<close>

definition text_cell :: "ustr \<Rightarrow> td" where
  "text_cell s = \<lparr> td_img = None, td_text = s \<rparr>"

definition img_cell :: "ustr \<Rightarrow> td" where
  "img_cell src = \<lparr> td_img = Some (Img (Some src)), td_text = [] \<rparr>"

definition sample_table :: table where
  "sample_table =
     \<lparr> caption = Some sample_caption,
       trs = [\<lparr> th_texts = [ascii ''Autorizador'', ascii ''Status''], tds = [] \<rparr>,
              \<lparr> th_texts = [], tds = [text_cell (ascii ''SVAN''),
                                       img_cell (ascii ''imagens/bola_verde_P.png'')] \<rparr>,
              \<lparr> th_texts = [], tds = [text_cell (ascii ''MA''),
                                       img_cell (ascii ''imagens/bola_amarela_P.png'')] \<rparr>] \<rparr>"

definition sample_table_no_status :: table where
  "sample_table_no_status =
     \<lparr> caption = Some sample_caption,
       trs = [\<lparr> th_texts = [ascii ''Autorizador'', ascii ''Autoriza'' @ [231, 227] @ ascii ''o4''],
                 tds = [] \<rparr>,
              \<lparr> th_texts = [], tds = [text_cell (ascii ''SVAN''),
                                       img_cell (ascii ''imagens/bola_verde_P.png'')] \<rparr>] \<rparr>"

definition row_SVAN :: row where
  "row_SVAN =
     [(ascii ''autorizador'', JStr (ascii ''SVAN'')),
      (ascii ''status'', JStr (ascii ''verde'')),
      (ascii ''tipo'', JStr (ascii ''Sefaz Virtual Ambiente Nacional'')),
      (ascii ''ufs_autorizador'', JList [ascii ''MA''])]"

definition row_MA :: row where
  "row_MA =
     [(ascii ''autorizador'', JStr (ascii ''MA'')),
      (ascii ''status'', JStr (ascii ''amarelo'')),
      (ascii ''relacionado_a'', JStr (ascii ''SVC-RS''))]"

definition row_no_status :: row where
  "row_no_status =
     [(ascii ''autorizador'', JStr (ascii ''SVAN'')),
      (ascii ''autorizacao4'', JStr (ascii ''verde'')),
      (ascii ''tipo'', JStr (ascii ''Sefaz Virtual Ambiente Nacional'')),
      (ascii ''ufs_autorizador'', JList [ascii ''MA''])]"

section \<open>Properties of normalize_key\<close>

lemma repeated_underscore_Cons:
  "repeated_underscore (a # ys) \<longleftrightarrow>
     (a = underscore \<and> ys \<noteq> [] \<and> hd ys = underscore) \<or> repeated_underscore ys"
  by (cases ys) auto

lemma repeated_underscore_append_iff:
  "repeated_underscore xs \<longleftrightarrow> (\<exists>ys zs. xs = ys @ underscore # underscore # zs)"
proof (induction xs rule: repeated_underscore.induct)
  case (1 a b cs)
  show ?case
  proof
    assume "repeated_underscore (a # b # cs)"
    then consider "a = underscore \<and> b = underscore" | "repeated_underscore (b # cs)" by auto
    then show "\<exists>ys zs. a # b # cs = ys @ underscore # underscore # zs"
    proof cases
      case 1
      then have "a # b # cs = [] @ underscore # underscore # cs" by simp
      then show ?thesis by blast
    next
      case 2
      with "1.IH" obtain ys zs where "b # cs = ys @ underscore # underscore # zs" by blast
      then have "a # b # cs = (a # ys) @ underscore # underscore # zs" by simp
      then show ?thesis by blast
    qed
  next
    assume "\<exists>ys zs. a # b # cs = ys @ underscore # underscore # zs"
    then obtain ys zs where e: "a # b # cs = ys @ underscore # underscore # zs" by blast
    show "repeated_underscore (a # b # cs)"
    proof (cases ys)
      case Nil
      with e show ?thesis by simp
    next
      case (Cons y ys')
      with e have "b # cs = ys' @ underscore # underscore # zs" by simp
      with "1.IH" have "repeated_underscore (b # cs)" by blast
      then show ?thesis by simp
    qed
  qed
qed (auto simp: Cons_eq_append_conv)

lemma repeated_underscore_rev: "repeated_underscore (rev xs) = repeated_underscore xs"
proof -
  have "repeated_underscore xs \<Longrightarrow> repeated_underscore (rev xs)" for xs
  proof -
    assume "repeated_underscore xs"
    then obtain ys zs where "xs = ys @ underscore # underscore # zs"
      by (auto simp: repeated_underscore_append_iff)
    then have "rev xs = rev zs @ underscore # underscore # rev ys" by simp
    then show ?thesis unfolding repeated_underscore_append_iff by blast
  qed
  from this [of xs] this [of "rev xs"] show ?thesis by auto
qed

lemma repeated_underscore_dropWhile:
  "repeated_underscore (dropWhile P xs) \<Longrightarrow> repeated_underscore xs"
proof -
  assume "repeated_underscore (dropWhile P xs)"
  then obtain ys zs where "dropWhile P xs = ys @ underscore # underscore # zs"
    by (auto simp: repeated_underscore_append_iff)
  then have "xs = (takeWhile P xs @ ys) @ underscore # underscore # zs"
    by (metis append.assoc takeWhile_dropWhile_id)
  then show ?thesis unfolding repeated_underscore_append_iff by blast
qed

lemma sub_underscore_runs_Nil_iff: "sub_underscore_runs xs = [] \<longleftrightarrow> xs = []"
  by (cases xs) auto

lemma hd_sub_underscore_runs: "hd (sub_underscore_runs xs) = hd xs"
  by (cases xs) auto

lemma set_sub_underscore_runs: "set (sub_underscore_runs xs) \<subseteq> set xs"
proof (induction xs rule: sub_underscore_runs.induct)
  case 1
  show ?case by simp
next
  case (2 c cs)
  show ?case
  proof (cases "c = underscore")
    case True
    with 2 have "set (sub_underscore_runs (dropWhile (\<lambda>x. x = underscore) cs))
        \<subseteq> set (dropWhile (\<lambda>x. x = underscore) cs)" by simp
    also have "\<dots> \<subseteq> set cs" by (auto dest: set_dropWhileD)
    finally show ?thesis using True by auto
  next
    case False
    with 2 show ?thesis by auto
  qed
qed

lemma no_repeat_sub_underscore_runs: "\<not> repeated_underscore (sub_underscore_runs xs)"
proof (induction xs rule: sub_underscore_runs.induct)
  case 1
  show ?case by simp
next
  case (2 c cs)
  show ?case
  proof (cases "c = underscore")
    case True
    let ?d = "dropWhile (\<lambda>x. x = underscore) cs"
    have h: "?d = [] \<or> hd ?d \<noteq> underscore"
      using hd_dropWhile [of "\<lambda>x. x = underscore" cs] by blast
    from True 2 have "\<not> repeated_underscore (sub_underscore_runs ?d)" by simp
    moreover from True have "sub_underscore_runs (c # cs) = underscore # sub_underscore_runs ?d"
      by simp
    ultimately show ?thesis using h
      by (auto simp only: repeated_underscore_Cons sub_underscore_runs_Nil_iff
          hd_sub_underscore_runs)
  next
    case False
    with 2 show ?thesis by (simp add: repeated_underscore_Cons)
  qed
qed

lemma set_strip_underscores: "set (strip_underscores xs) \<subseteq> set xs"
  unfolding strip_underscores_def by (auto dest!: set_dropWhileD)

lemma no_repeat_strip_underscores:
  "\<not> repeated_underscore xs \<Longrightarrow> \<not> repeated_underscore (strip_underscores xs)"
  unfolding strip_underscores_def
  by (auto simp: repeated_underscore_rev dest!: repeated_underscore_dropWhile)

lemma hd_strip_underscores:
  "strip_underscores xs \<noteq> [] \<Longrightarrow> hd (strip_underscores xs) \<noteq> underscore"
proof -
  let ?d = "dropWhile (\<lambda>x. x = underscore) xs"
  let ?r = "dropWhile (\<lambda>x. x = underscore) (rev ?d)"
  assume "strip_underscores xs \<noteq> []"
  then have ne: "rev ?r \<noteq> []" by (simp add: strip_underscores_def)
  have "rev ?d = takeWhile (\<lambda>x. x = underscore) (rev ?d) @ ?r" by simp
  then have "rev (rev ?d) = rev (takeWhile (\<lambda>x. x = underscore) (rev ?d) @ ?r)" by simp
  then have d: "?d = rev ?r @ rev (takeWhile (\<lambda>x. x = underscore) (rev ?d))"
    by (simp only: rev_rev_ident rev_append)
  from ne d have "?d \<noteq> []" by (metis append_is_Nil_conv)
  then have "hd ?d \<noteq> underscore" using hd_dropWhile [of "\<lambda>x. x = underscore" xs] by blast
  moreover from ne d have "hd ?d = hd (rev ?r)" by (metis hd_append2)
  ultimately show ?thesis by (simp add: strip_underscores_def)
qed

lemma last_strip_underscores:
  "strip_underscores xs \<noteq> [] \<Longrightarrow> last (strip_underscores xs) \<noteq> underscore"
proof -
  let ?r = "dropWhile (\<lambda>x. x = underscore) (rev (dropWhile (\<lambda>x. x = underscore) xs))"
  assume "strip_underscores xs \<noteq> []"
  then have ne: "?r \<noteq> []" by (simp add: strip_underscores_def)
  then have "hd ?r \<noteq> underscore" using hd_dropWhile [of "\<lambda>x. x = underscore"] by blast
  with ne show ?thesis by (simp add: strip_underscores_def last_rev)
qed


lemma set_sub_non_alnum: "c \<in> set (sub_non_alnum xs) \<Longrightarrow> is_alnum c \<or> c = underscore"
  by (auto simp: sub_non_alnum_def split: if_splits)

lemma lower_char_underscore:
  "(if 65 \<le> c \<and> c \<le> 90 then c + 32 else c) = underscore \<longleftrightarrow> c = underscore"
  by (auto simp: underscore_def)

lemma lower_Nil_iff: "lower xs = [] \<longleftrightarrow> xs = []"
  by (simp add: lower_def)

lemma hd_lower: "xs \<noteq> [] \<Longrightarrow> hd (lower xs) = underscore \<longleftrightarrow> hd xs = underscore"
  by (simp add: lower_def hd_map lower_char_underscore)

lemma last_lower: "xs \<noteq> [] \<Longrightarrow> last (lower xs) = underscore \<longleftrightarrow> last xs = underscore"
  by (simp add: lower_def last_map lower_char_underscore)

lemma repeated_underscore_lower: "repeated_underscore (lower xs) = repeated_underscore xs"
proof (induction xs rule: repeated_underscore.induct)
  case (1 a b cs)
  then show ?case using lower_char_underscore [of a] lower_char_underscore [of b]
    by (simp add: lower_def)
qed (simp_all add: lower_def)

lemma key_char_lower:
  "\<forall>c \<in> set xs. is_alnum c \<or> c = underscore \<Longrightarrow> \<forall>c \<in> set (lower xs). key_char c"
  by (auto simp: lower_def is_alnum_def key_char_def underscore_def)

lemma sub_underscore_runs_id:
  "\<not> repeated_underscore xs \<Longrightarrow> sub_underscore_runs xs = xs"
proof (induction xs rule: sub_underscore_runs.induct)
  case 1
  show ?case by simp
next
  case (2 c cs)
  from "2.prems" have nr: "\<not> repeated_underscore cs" by (simp add: repeated_underscore_Cons)
  show ?case
  proof (cases "c = underscore")
    case True
    with "2.prems" have "cs = [] \<or> hd cs \<noteq> underscore" by (auto simp: repeated_underscore_Cons)
    then have d: "dropWhile (\<lambda>x. x = underscore) cs = cs" by (cases cs) auto
    with True nr "2.IH"(1) show ?thesis by simp
  next
    case False
    with nr "2.IH"(2) show ?thesis by simp
  qed
qed

lemma dropWhile_id_hd: "ys = [] \<or> \<not> P (hd ys) \<Longrightarrow> dropWhile P ys = ys"
  by (cases ys) auto

lemma strip_underscores_id:
  assumes "xs \<noteq> [] \<longrightarrow> hd xs \<noteq> underscore \<and> last xs \<noteq> underscore"
  shows "strip_underscores xs = xs"
proof (cases xs)
  case Nil
  then show ?thesis by (simp add: strip_underscores_def)
next
  case (Cons a as)
  with assms have a: "a \<noteq> underscore" and l: "last xs \<noteq> underscore" by auto
  from a Cons have d: "dropWhile (\<lambda>x. x = underscore) xs = xs" by simp
  from Cons have "xs \<noteq> []" by simp
  then have "hd (rev xs) = last xs" by (simp add: hd_rev)
  with l have "\<not> (\<lambda>x. x = underscore) (hd (rev xs))" by simp
  then have "dropWhile (\<lambda>x. x = underscore) (rev xs) = rev xs"
    by (rule dropWhile_id_hd [OF disjI2])
  with d show ?thesis by (simp add: strip_underscores_def)
qed

lemma normalize_key_props:
  shows normalize_key_chars: "\<forall>c \<in> set (normalize_key ud key). key_char c"
    and normalize_key_ends: "normalize_key ud key \<noteq> [] \<longrightarrow>
        hd (normalize_key ud key) \<noteq> underscore \<and> last (normalize_key ud key) \<noteq> underscore"
    and normalize_key_no_repeat: "\<not> repeated_underscore (normalize_key ud key)"
proof -
  let ?s = "sub_underscore_runs (sub_non_alnum (drop_marks ud key))"
  have "\<forall>c \<in> set (strip_underscores ?s). is_alnum c \<or> c = underscore"
    using set_strip_underscores [of ?s] set_sub_underscore_runs [of "sub_non_alnum (drop_marks ud key)"]
      set_sub_non_alnum [of _ "drop_marks ud key"] by blast
  then show "\<forall>c \<in> set (normalize_key ud key). key_char c"
    unfolding normalize_key_def by (rule key_char_lower)
  show "normalize_key ud key \<noteq> [] \<longrightarrow>
        hd (normalize_key ud key) \<noteq> underscore \<and> last (normalize_key ud key) \<noteq> underscore"
    using hd_strip_underscores [of ?s] last_strip_underscores [of ?s]
    by (simp add: normalize_key_def lower_Nil_iff hd_lower last_lower)
  show "\<not> repeated_underscore (normalize_key ud key)"
    by (simp add: normalize_key_def repeated_underscore_lower no_repeat_strip_underscores
        no_repeat_sub_underscore_runs)
qed

text \<open>On ASCII text the first step of the normalizer does nothing.\<close>

lemma drop_marks_ascii:
  assumes "ascii_stable ud" and "\<forall>c \<in> set s. c < 128"
  shows "drop_marks ud s = s"
proof -
  from assms have "normalize_NFD ud s = s" by (simp add: ascii_stable_def)
  moreover from assms have "\<forall>c \<in> set s. category ud c \<noteq> ascii ''Mn''"
    by (simp add: ascii_stable_def)
  ultimately show ?thesis by (simp add: drop_marks_def)
qed

lemma normalize_key_ascii:
  assumes "ascii_stable ud" and "\<forall>c \<in> set s. c < 128"
  shows "normalize_key ud s = lower (strip_underscores (sub_underscore_runs (sub_non_alnum s)))"
  using drop_marks_ascii [OF assms] by (simp add: normalize_key_def)

lemma normalize_key_fixed:
  assumes "ascii_stable ud"
    and kc: "\<forall>c \<in> set k. key_char c"
    and ends: "k \<noteq> [] \<longrightarrow> hd k \<noteq> underscore \<and> last k \<noteq> underscore"
    and nr: "\<not> repeated_underscore k"
  shows "normalize_key ud k = k"
proof -
  from kc have small: "\<forall>c \<in> set k. c < 128" by (auto simp: key_char_def underscore_def)
  from kc have 2: "sub_non_alnum k = k"
    unfolding sub_non_alnum_def by (intro map_idI) (auto simp: key_char_def is_alnum_def)
  from nr have 3: "sub_underscore_runs k = k" by (rule sub_underscore_runs_id)
  from ends have 4: "strip_underscores k = k" by (rule strip_underscores_id)
  from kc have 5: "lower k = k"
    unfolding lower_def by (intro map_idI) (auto simp: key_char_def underscore_def)
  show ?thesis
    by (simp only: normalize_key_ascii [OF assms(1) small] 2 3 4 5)
qed

lemma sample_decomposition_ascii: "c < 128 \<Longrightarrow> sample_decomposition c = [c]"
  by (simp add: sample_decomposition_def)

lemma sample_unicodedata_stable: "ascii_stable sample_unicodedata"
proof -
  have "(\<forall>c \<in> set s. c < 128) \<longrightarrow> concat (map sample_decomposition s) = s" for s
    by (induction s) (simp_all add: sample_decomposition_ascii)
  moreover have "ascii ''Mn'' \<noteq> ascii ''Xx''" by (simp add: ascii_def)
  ultimately show ?thesis
    by (simp add: ascii_stable_def sample_unicodedata_def)
qed

text \<open>
  C9. For every input string, the output of \<open>normalize_key\<close> contains only characters of
  \<open>[a-z0-9_]\<close>, has no underscore at its start or end, and has no two underscores in a
  row; the empty input gives the empty output (NFD of the empty string being empty).
\<close>

theorem normalize_key_shape:
  "(\<forall>c \<in> set (normalize_key ud key). key_char c)
   \<and> (normalize_key ud key \<noteq> [] \<longrightarrow>
        hd (normalize_key ud key) \<noteq> underscore \<and> last (normalize_key ud key) \<noteq> underscore)
   \<and> \<not> repeated_underscore (normalize_key ud key)
   \<and> (normalize_NFD ud [] = [] \<longrightarrow> normalize_key ud [] = [])"
proof -
  have "normalize_NFD ud [] = [] \<longrightarrow> normalize_key ud [] = []"
    by (simp add: normalize_key_def drop_marks_def sub_non_alnum_def strip_underscores_def lower_def)
  with normalize_key_chars [of ud key] normalize_key_ends [of ud key]
    normalize_key_no_repeat [of ud key]
  show ?thesis by blast
qed

theorem normalize_key_shape_witness:
  "normalize_key sample_unicodedata (ascii ''Status com Acento!'') = ascii ''status_com_acento''
   \<and> list_all key_char (ascii ''status_com_acento'')
   \<and> hd (ascii ''status_com_acento'') \<noteq> underscore
   \<and> last (ascii ''status_com_acento'') \<noteq> underscore
   \<and> \<not> repeated_underscore (ascii ''status_com_acento'')
   \<and> normalize_key sample_unicodedata [] = []"
proof -
  have v: "normalize_key sample_unicodedata (ascii ''Status com Acento!'') = ascii ''status_com_acento''"
    by code_simp
  have n: "normalize_NFD sample_unicodedata [] = []" by (simp add: sample_unicodedata_def)
  have e: "ascii ''status_com_acento'' \<noteq> []" by (simp add: ascii_def)
  show ?thesis
    using normalize_key_shape [of sample_unicodedata "ascii ''Status com Acento!''"]
      normalize_key_shape [of sample_unicodedata "[]"] n e
    unfolding v list_all_iff by blast
qed

text \<open>
  C10. \<open>normalize_key\<close> is idempotent: normalizing a normalized key leaves it unchanged.
  The Unicode tables enter only through their behaviour on ASCII text.
\<close>

theorem normalize_key_idempotent:
  assumes "ascii_stable ud"
  shows "normalize_key ud (normalize_key ud key) = normalize_key ud key"
  using assms normalize_key_chars [of ud key] normalize_key_ends [of ud key]
    normalize_key_no_repeat [of ud key]
  by (rule normalize_key_fixed)

theorem normalize_key_idempotent_witness:
  "ascii_stable sample_unicodedata
   \<and> normalize_key sample_unicodedata (ascii ''Status com Acento!'') = ascii ''status_com_acento''
   \<and> normalize_key sample_unicodedata (ascii ''status_com_acento'') = ascii ''status_com_acento''"
proof -
  have v: "normalize_key sample_unicodedata (ascii ''Status com Acento!'') = ascii ''status_com_acento''"
    by code_simp
  show ?thesis
    using normalize_key_idempotent [OF sample_unicodedata_stable, of "ascii ''Status com Acento!''"]
      sample_unicodedata_stable
    unfolding v by simp
qed
section \<open>The invariant of the history\<close>

lemma fold_latest_mem:
  "fold (\<lambda>r best. if valid_from best < valid_from r then r else best) cs c \<in> set (c # cs)"
proof (induction cs arbitrary: c)
  case Nil
  show ?case by simp
next
  case (Cons x xs)
  from Cons.IH [of "if valid_from c < valid_from x then x else c"]
  show ?case by (auto split: if_splits)
qed

lemma select_current_Some:
  assumes "select_current rs a = Some c"
  shows "c \<in> set rs" and "autorizador c = a" and "is_current c = 1"
proof -
  let ?f = "filter (\<lambda>r. autorizador r = a \<and> is_current r = 1) rs"
  from assms obtain x xs where f: "?f = x # xs"
    and c: "c = fold (\<lambda>r best. if valid_from best < valid_from r then r else best) xs x"
    by (auto simp: select_current_def split: list.splits)
  from c fold_latest_mem [of xs x] f have "c \<in> set ?f" by simp
  then show "c \<in> set rs" and "autorizador c = a" and "is_current c = 1" by auto
qed

lemma select_current_None:
  "select_current rs a = None \<longleftrightarrow> filter (\<lambda>r. autorizador r = a \<and> is_current r = 1) rs = []"
  by (simp add: select_current_def split: list.splits)

lemma select_current_single:
  "filter (\<lambda>r. autorizador r = a \<and> is_current r = 1) rs = [c] \<Longrightarrow> select_current rs a = Some c"
  by (simp add: select_current_def)

text \<open>Under the invariant an entity has at most one current record.\<close>

lemma distinct_map_filter_single:
  assumes "distinct (map f xs)" and "x \<in> set xs" and "f x = a"
  shows "filter (\<lambda>r. f r = a) xs = [x]"
  using assms
proof (induction xs)
  case Nil
  then show ?case by simp
next
  case (Cons y ys)
  show ?case
  proof (cases "y = x")
    case True
    with Cons.prems have "\<forall>r \<in> set ys. f r \<noteq> a" by (auto simp: image_iff)
    then have "filter (\<lambda>r. f r = a) ys = []" by (simp add: filter_empty_conv)
    with True Cons.prems show ?thesis by simp
  next
    case False
    with Cons.prems have "x \<in> set ys" and "distinct (map f ys)" and "f y \<noteq> a"
      by (auto simp: image_iff)
    with Cons.IH Cons.prems show ?thesis by simp
  qed
qed

lemma scd2_inv_currents:
  assumes "scd2_inv rs" and "select_current rs a = Some c"
  shows "filter (\<lambda>r. autorizador r = a \<and> is_current r = 1) rs = [c]"
proof -
  let ?cur = "filter (\<lambda>r. is_current r = 1) rs"
  from assms(1) have d: "distinct (map autorizador ?cur)" by (simp add: scd2_inv_def)
  from select_current_Some [OF assms(2)] have "c \<in> set ?cur" and "autorizador c = a" by auto
  with d have "filter (\<lambda>r. autorizador r = a) ?cur = [c]" by (rule distinct_map_filter_single)
  moreover have "filter (\<lambda>r. autorizador r = a) ?cur
      = filter (\<lambda>r. autorizador r = a \<and> is_current r = 1) rs"
    by (simp add: conj_commute)
  ultimately show ?thesis by simp
qed

text \<open>Closing by id leaves, of the current records, those with another id.\<close>

lemma filter_current_update_close:
  "filter (\<lambda>r. is_current r = 1) (update_close ts i rs)
     = filter (\<lambda>r. is_current r = 1 \<and> rec_id r \<noteq> i) rs"
  by (induction rs) (auto simp: update_close_def)

lemma valid_to_update_close:
  "list_all (\<lambda>r. is_current r = 1 \<longrightarrow> valid_to r = None) rs \<Longrightarrow>
   list_all (\<lambda>r. is_current r = 1 \<longrightarrow> valid_to r = None) (update_close ts i rs)"
  by (induction rs) (auto simp: update_close_def)

lemma scd2_inv_update_close:
  assumes "scd2_inv rs"
  shows "scd2_inv (update_close ts i rs)"
proof -
  have "filter (\<lambda>r. is_current r = 1 \<and> rec_id r \<noteq> i) rs
      = filter (\<lambda>r. rec_id r \<noteq> i) (filter (\<lambda>r. is_current r = 1) rs)"
    by (simp add: conj_commute)
  then have "distinct (map autorizador (filter (\<lambda>r. is_current r = 1) (update_close ts i rs)))"
    using assms by (simp only: filter_current_update_close scd2_inv_def distinct_map_filter)
  moreover have "list_all (\<lambda>r. is_current r = 1 \<longrightarrow> valid_to r = None) (update_close ts i rs)"
    using assms by (intro valid_to_update_close) (simp add: scd2_inv_def)
  ultimately show ?thesis by (simp only: scd2_inv_def)
qed

lemma no_current_after_close:
  assumes "scd2_inv rs" and "select_current rs a = Some c"
  shows "a \<notin> autorizador ` set (filter (\<lambda>r. is_current r = 1) (update_close ts (rec_id c) rs))"
proof
  assume "a \<in> autorizador ` set (filter (\<lambda>r. is_current r = 1) (update_close ts (rec_id c) rs))"
  then obtain r where r: "r \<in> set rs" "is_current r = 1" "rec_id r \<noteq> rec_id c" "autorizador r = a"
    by (auto simp: filter_current_update_close)
  then have "r \<in> set (filter (\<lambda>r. autorizador r = a \<and> is_current r = 1) rs)" by simp
  with scd2_inv_currents [OF assms] have "r = c" by simp
  with r show False by simp
qed

lemma scd2_inv_append_current:
  assumes "scd2_inv rs" and "a \<notin> autorizador ` set (filter (\<lambda>r. is_current r = 1) rs)"
  shows "scd2_inv (rs @ [\<lparr> rec_id = i, autorizador = a, status_json = r, valid_from = ts,
                          valid_to = None, is_current = 1 \<rparr>])"
  using assms by (auto simp: scd2_inv_def)

lemma scd2_inv_scd2_row:
  assumes "scd2_inv (table_rows d)"
  shows "scd2_inv (table_rows (scd2_row ts a r d))"
proof (cases "select_current (table_rows d) a")
  case None
  then have "a \<notin> autorizador ` set (filter (\<lambda>r. is_current r = 1) (table_rows d))"
    by (auto simp: select_current_None filter_empty_conv)
  with assms have "scd2_inv (table_rows d @
        [\<lparr> rec_id = next_id d, autorizador = a, status_json = r, valid_from = ts,
           valid_to = None, is_current = 1 \<rparr>])"
    by (rule scd2_inv_append_current)
  with None show ?thesis by (simp add: scd2_row_def insert_current_def)
next
  case (Some c)
  show ?thesis
  proof (cases "status_changed (status_json c) r")
    case True
    from no_current_after_close [OF assms Some, of ts] scd2_inv_update_close [OF assms, of ts "rec_id c"]
    have "scd2_inv (update_close ts (rec_id c) (table_rows d) @
        [\<lparr> rec_id = next_id d, autorizador = a, status_json = r, valid_from = ts,
           valid_to = None, is_current = 1 \<rparr>])"
      by (intro scd2_inv_append_current)
    with Some True show ?thesis by (simp add: scd2_row_def insert_current_def)
  next
    case False
    with Some assms show ?thesis by (simp add: scd2_row_def)
  qed
qed

lemma scd2_inv_scd2_loop:
  "scd2_inv (table_rows d) \<Longrightarrow> scd2_inv (table_rows (snd (scd2_loop f ts i rows d)))"
proof (induction rows arbitrary: i d)
  case Nil
  then show ?case by simp
next
  case (Cons r rest)
  show ?case
  proof (cases "row_get r (ascii ''autorizador'')")
    case JNone
    with Cons show ?thesis by simp
  next
    case (JStr s)
    with Cons scd2_inv_scd2_row [OF Cons.prems, of ts s r] show ?thesis by simp
  next
    case (JList l)
    with Cons show ?thesis by simp
  qed
qed

lemma scd2_inv_filter: "scd2_inv rs \<Longrightarrow> scd2_inv (filter P rs)"
proof -
  assume a: "scd2_inv rs"
  have "filter (\<lambda>r. is_current r = 1) (filter P rs) = filter P (filter (\<lambda>r. is_current r = 1) rs)"
    by (simp add: conj_commute)
  then have "distinct (map autorizador (filter (\<lambda>r. is_current r = 1) (filter P rs)))"
    using a by (simp only: scd2_inv_def distinct_map_filter)
  moreover have "list_all (\<lambda>r. is_current r = 1 \<longrightarrow> valid_to r = None) (filter P rs)"
    using a by (auto simp: scd2_inv_def list_all_iff)
  ultimately show ?thesis by (simp only: scd2_inv_def)
qed

lemma scd2_inv_retention:
  "scd2_inv (table_rows d) \<Longrightarrow> apply_retention_policy cfg e d = Some d' \<Longrightarrow> scd2_inv (table_rows d')"
  by (auto simp: apply_retention_policy_def scd2_inv_filter split: option.splits retention_fault.splits)

lemma persist_cases:
  obtains (refused) "persist cfg lib e data d = (False, d)"
  | (rolled_back) stamp parsed d' where
      "checked_at data = Some stamp" "fromisoformat lib stamp = Some parsed"
      "snd (scd2_loop (db_fault e) (utc_instant parsed) 0 (statuses data) d) = d'"
      "persist cfg lib e data d = (False, rollback d d')"
  | (clock) stamp parsed d' where
      "checked_at data = Some stamp" "fromisoformat lib stamp = Some parsed"
      "scd2_loop (db_fault e) (utc_instant parsed) 0 (statuses data) d = (True, d')"
      "apply_retention_policy cfg e d' = None"
      "persist cfg lib e data d = (False, d')"
  | (completed) stamp parsed d' d'' where
      "success data" "checked_at data = Some stamp" "stamp \<noteq> []"
      "fromisoformat lib stamp = Some parsed"
      "db_fault e \<noteq> Some Connect_fails" "db_fault e \<noteq> Some Commit_fails"
      "scd2_loop (db_fault e) (utc_instant parsed) 0 (statuses data) d = (True, d')"
      "apply_retention_policy cfg e d' = Some d''"
      "persist cfg lib e data d = (True, d'')"
proof (cases "checked_at data")
  case None
  then have "persist cfg lib e data d = (False, d)" by (simp add: persist_def)
  then show thesis by (rule refused)
next
  case (Some stamp)
  show thesis
  proof (cases "\<not> success data \<or> stamp = [] \<or> db_fault e = Some Connect_fails")
    case True
    with Some have "persist cfg lib e data d = (False, d)" by (auto simp: persist_def)
    then show thesis by (rule refused)
  next
    case False
    show thesis
    proof (cases "fromisoformat lib stamp")
      case None
      with Some False have "persist cfg lib e data d = (False, d)" by (simp add: persist_def)
      then show thesis by (rule refused)
    next
      case parsed: (Some parsed)
      obtain ok d' where loop:
        "scd2_loop (db_fault e) (utc_instant parsed) 0 (statuses data) d = (ok, d')"
        by (cases "scd2_loop (db_fault e) (utc_instant parsed) 0 (statuses data) d")
      show thesis
      proof (cases "\<not> ok \<or> db_fault e = Some Commit_fails")
        case True
        with Some False parsed loop have "persist cfg lib e data d = (False, rollback d d')"
          by (auto simp: persist_def)
        moreover from loop
        have "snd (scd2_loop (db_fault e) (utc_instant parsed) 0 (statuses data) d) = d'" by simp
        ultimately show thesis using Some parsed by (intro rolled_back)
      next
        case ok: False
        show thesis
        proof (cases "apply_retention_policy cfg e d'")
          case None
          with Some False parsed loop ok have "persist cfg lib e data d = (False, d')"
            by (simp add: persist_def)
          with Some parsed loop ok None show thesis by (intro clock) auto
        next
          case (Some d'')
          with \<open>checked_at data = Some stamp\<close> False parsed loop ok
          have "persist cfg lib e data d = (True, d'')" by (simp add: persist_def)
          with \<open>checked_at data = Some stamp\<close> False parsed loop ok Some
          show thesis by (intro completed) auto
        qed
      qed
    qed
  qed
qed

lemma scd2_inv_persist:
  assumes "scd2_inv (table_rows d)"
  shows "scd2_inv (table_rows (snd (persist cfg lib e data d)))"
proof (cases rule: persist_cases [of cfg lib e data d])
  case refused
  with assms show ?thesis by simp
next
  case (rolled_back stamp parsed d')
  with assms show ?thesis by (simp add: rollback_def)
next
  case (clock stamp parsed d')
  with scd2_inv_scd2_loop [OF assms, of "db_fault e" "utc_instant parsed" 0 "statuses data"]
  show ?thesis by simp
next
  case (completed stamp parsed d' d'')
  with scd2_inv_scd2_loop [OF assms, of "db_fault e" "utc_instant parsed" 0 "statuses data"]
  have "scd2_inv (table_rows d')" by simp
  with completed show ?thesis by (auto dest: scd2_inv_retention)
qed


lemma distinct_map_iff_filter_le1:
  "distinct (map f xs) \<longleftrightarrow> (\<forall>a. length (filter (\<lambda>x. f x = a) xs) \<le> 1)"
proof (induction xs)
  case Nil
  show ?case by simp
next
  case (Cons x xs)
  show ?case
  proof
    assume d: "distinct (map f (x # xs))"
    then have nx: "\<forall>y \<in> set xs. f y \<noteq> f x" by (auto simp: image_iff)
    from d Cons.IH have le: "\<forall>a. length (filter (\<lambda>x. f x = a) xs) \<le> 1" by simp
    show "\<forall>a. length (filter (\<lambda>y. f y = a) (x # xs)) \<le> 1"
    proof
      fix a
      show "length (filter (\<lambda>y. f y = a) (x # xs)) \<le> 1"
      proof (cases "f x = a")
        case True
        with nx have "filter (\<lambda>y. f y = a) xs = []" by (auto simp: filter_empty_conv)
        with True show ?thesis by simp
      next
        case False
        with le show ?thesis by simp
      qed
    qed
  next
    assume le: "\<forall>a. length (filter (\<lambda>y. f y = a) (x # xs)) \<le> 1"
    have "length (filter (\<lambda>y. f y = a) xs) \<le> 1" for a
      using le [rule_format, of a] by (simp split: if_splits)
    with Cons.IH have d: "distinct (map f xs)" by simp
    from le [rule_format, of "f x"] have "filter (\<lambda>y. f y = f x) xs = []" by simp
    then have "f x \<notin> f ` set xs" by (auto simp: filter_empty_conv)
    with d show "distinct (map f (x # xs))" by simp
  qed
qed

lemma scd2_inv_iff:
  "scd2_inv (table_rows d) \<longleftrightarrow>
     (\<forall>a. length (currents_of a d) \<le> 1)
     \<and> (\<forall>r \<in> set (table_rows d). is_current r = 1 \<longrightarrow> valid_to r = None)"
proof -
  have "filter (\<lambda>r. autorizador r = a) (filter (\<lambda>r. is_current r = 1) (table_rows d))
      = currents_of a d" for a
    by (simp add: currents_of_def conj_commute)
  then show ?thesis
    by (simp add: scd2_inv_def distinct_map_iff_filter_le1 list_all_iff)
qed

lemma scd2_inv_run_ops:
  "scd2_inv (table_rows d) \<Longrightarrow> scd2_inv (table_rows (run_ops cfg lib ops d))"
  unfolding run_ops_def
proof (induction ops arbitrary: d)
  case Nil
  then show ?case by simp
next
  case (Cons x xs)
  have "scd2_inv (table_rows (run_op cfg lib x d))"
  proof (cases x)
    case (Persist e data)
    with Cons.prems show ?thesis by (simp add: scd2_inv_persist)
  next
    case (Retention e)
    with Cons.prems show ?thesis by (auto split: option.splits dest: scd2_inv_retention)
  qed
  with Cons.IH show ?case by simp
qed

lemma scd2_inv_empty: "scd2_inv (table_rows empty_db)"
  by (simp add: scd2_inv_def empty_db_def)

text \<open>
  C1. In every store reached from the empty one by persist and retention calls, each
  \<open>autorizador\<close> has at most one record with \<open>is_current\<close> set, and such a record has no
  \<open>valid_to\<close>; every persist call and every retention call preserves this.
\<close>

theorem single_current_invariant:
  "(\<forall>a. length (currents_of a (run_ops cfg lib ops empty_db)) \<le> 1)
   \<and> (\<forall>r \<in> set (table_rows (run_ops cfg lib ops empty_db)). is_current r = 1 \<longrightarrow> valid_to r = None)
   \<and> (scd2_inv (table_rows d) \<longrightarrow> scd2_inv (table_rows (snd (persist cfg lib e data d))))
   \<and> (scd2_inv (table_rows d) \<longrightarrow>
        (\<forall>d'. apply_retention_policy cfg e d = Some d' \<longrightarrow> scd2_inv (table_rows d')))"
proof -
  have "scd2_inv (table_rows (run_ops cfg lib ops empty_db))"
    using scd2_inv_empty by (rule scd2_inv_run_ops)
  then have "(\<forall>a. length (currents_of a (run_ops cfg lib ops empty_db)) \<le> 1)
     \<and> (\<forall>r \<in> set (table_rows (run_ops cfg lib ops empty_db)). is_current r = 1 \<longrightarrow> valid_to r = None)"
    using scd2_inv_iff [of "run_ops cfg lib ops empty_db"] by blast
  then show ?thesis
    using scd2_inv_persist [of d cfg lib e data] scd2_inv_retention [of d cfg e] by blast
qed

theorem single_current_invariant_witness:
  "run_ops sample_config sample_lib
      [Persist (quiet (T1 + 5)) snapshot_A, Persist (quiet (T2 + 5)) snapshot_B,
       Retention (quiet (T2 + 10))] empty_db = db_AB
   \<and> length (currents_of (ascii ''SVAN'') db_AB) = 1
   \<and> list_all (\<lambda>r. is_current r \<noteq> 1 \<or> valid_to r = None) (table_rows db_AB)
   \<and> scd2_inv (table_rows db_A)
   \<and> persist sample_config sample_lib (quiet (T2 + 5)) snapshot_B db_A = (True, db_AB)
   \<and> apply_retention_policy sample_config (quiet (T2 + 10)) db_AB = Some db_AB
   \<and> scd2_inv (table_rows db_AB)"
proof -
  have run: "run_ops sample_config sample_lib
      [Persist (quiet (T1 + 5)) snapshot_A, Persist (quiet (T2 + 5)) snapshot_B,
       Retention (quiet (T2 + 10))] empty_db = db_AB"
    by code_simp
  have len: "length (currents_of (ascii ''SVAN'') db_AB) = 1" by code_simp
  have inv: "scd2_inv (table_rows db_A)" by code_simp
  have p: "persist sample_config sample_lib (quiet (T2 + 5)) snapshot_B db_A = (True, db_AB)"
    by code_simp
  have r: "apply_retention_policy sample_config (quiet (T2 + 10)) db_AB = Some db_AB"
    by code_simp
  note inst = single_current_invariant [of sample_config sample_lib
      "[Persist (quiet (T1 + 5)) snapshot_A, Persist (quiet (T2 + 5)) snapshot_B,
        Retention (quiet (T2 + 10))]" db_A "quiet (T2 + 5)" snapshot_B]
  from inst have "\<forall>r \<in> set (table_rows db_AB). is_current r = 1 \<longrightarrow> valid_to r = None"
    unfolding run by blast
  then have all: "list_all (\<lambda>r. is_current r \<noteq> 1 \<or> valid_to r = None) (table_rows db_AB)"
    by (auto simp: list_all_iff)
  from inst inv have "scd2_inv (table_rows (snd (persist sample_config sample_lib (quiet (T2 + 5)) snapshot_B db_A)))"
    by blast
  then have "scd2_inv (table_rows db_AB)" by (simp add: p)
  with run len all inv p r show ?thesis by blast
qed



section \<open>Refusal and failure of persist and save_json\<close>

text \<open>
  C4 as stated fails for the export: a successful snapshot without \<open>checked_at\<close> is
  written by \<open>save_json\<close>, which returns true.
\<close>

theorem save_json_ignores_checked_at:
  "success snapshot_no_stamp \<and> checked_at snapshot_no_stamp = None
   \<and> fst (save_json sample_unicodedata export_quiet snapshot_no_stamp empty_fs)
   \<and> json_file (snd (save_json sample_unicodedata export_quiet snapshot_no_stamp empty_fs))
       \<noteq> json_file empty_fs"
  by (simp add: save_json_def snapshot_no_stamp_def export_quiet_def empty_fs_def)

text \<open>
  C4, amended. \<open>persist\<close> returns false and leaves the store as it is whenever \<open>success\<close>
  is false or \<open>checked_at\<close> is absent; \<open>save_json\<close> returns false and leaves the files as
  they are whenever \<open>success\<close> is false (it does not look at \<open>checked_at\<close>).
\<close>

theorem refused_snapshot_no_write:
  "(\<not> success data \<or> checked_at data = None \<longrightarrow> persist cfg lib e data d = (False, d))
   \<and> (\<not> success data \<longrightarrow> save_json ud x data fs = (False, fs))"
  by (auto simp: persist_def save_json_def split: option.splits)

theorem refused_snapshot_no_write_witness:
  "\<not> success snapshot_failed
   \<and> persist sample_config sample_lib (quiet T1) snapshot_failed db_A = (False, db_A)
   \<and> save_json sample_unicodedata export_quiet snapshot_failed empty_fs = (False, empty_fs)
   \<and> checked_at snapshot_no_stamp = None
   \<and> persist sample_config sample_lib (quiet T1) snapshot_no_stamp db_A = (False, db_A)"
proof -
  have 1: "\<not> success snapshot_failed" by (simp add: snapshot_failed_def)
  have 2: "checked_at snapshot_no_stamp = None" by (simp add: snapshot_no_stamp_def)
  from refused_snapshot_no_write [of snapshot_failed sample_config sample_lib "quiet T1" db_A
      sample_unicodedata export_quiet empty_fs]
    refused_snapshot_no_write [of snapshot_no_stamp sample_config sample_lib "quiet T1" db_A
      sample_unicodedata export_quiet empty_fs] 1 2
  show ?thesis by blast
qed

text \<open>
  C5 as stated fails: with an exception inside the retention step \<open>persist\<close> returns true,
  and the rows it committed stay.
\<close>

theorem persist_true_despite_retention_failure:
  "retention_fault \<lparr> now = T1 + 5, db_fault = None, retention_fault = Some Retention_raises \<rparr>
     = Some Retention_raises
   \<and> persist sample_config sample_lib
        \<lparr> now = T1 + 5, db_fault = None, retention_fault = Some Retention_raises \<rparr>
        snapshot_A empty_db = (True, db_A)"
  by code_simp

lemma retention_swallowed:
  "retention_fault e \<noteq> Some Clock_raises \<Longrightarrow> \<exists>d'. apply_retention_policy cfg e d = Some d'"
  by (auto simp: apply_retention_policy_def Let_def split: option.splits retention_fault.splits)

lemma persist_true_iff:
  "fst (persist cfg lib e data d) \<longleftrightarrow>
     (\<exists>stamp parsed d' d''.
          success data \<and> checked_at data = Some stamp \<and> stamp \<noteq> []
          \<and> fromisoformat lib stamp = Some parsed
          \<and> db_fault e \<noteq> Some Connect_fails \<and> db_fault e \<noteq> Some Commit_fails
          \<and> scd2_loop (db_fault e) (utc_instant parsed) 0 (statuses data) d = (True, d')
          \<and> apply_retention_policy cfg e d' = Some d''
          \<and> persist cfg lib e data d = (True, d''))"
proof
  assume t: "fst (persist cfg lib e data d)"
  show "\<exists>stamp parsed d' d''.
          success data \<and> checked_at data = Some stamp \<and> stamp \<noteq> []
          \<and> fromisoformat lib stamp = Some parsed
          \<and> db_fault e \<noteq> Some Connect_fails \<and> db_fault e \<noteq> Some Commit_fails
          \<and> scd2_loop (db_fault e) (utc_instant parsed) 0 (statuses data) d = (True, d')
          \<and> apply_retention_policy cfg e d' = Some d''
          \<and> persist cfg lib e data d = (True, d'')"
  proof (cases rule: persist_cases [of cfg lib e data d])
    case refused
    with t show ?thesis by simp
  next
    case (rolled_back stamp parsed d')
    with t show ?thesis by simp
  next
    case (clock stamp parsed d')
    with t show ?thesis by simp
  next
    case (completed stamp parsed d' d'')
    then show ?thesis by blast
  qed
next
  assume "\<exists>stamp parsed d' d''.
          success data \<and> checked_at data = Some stamp \<and> stamp \<noteq> []
          \<and> fromisoformat lib stamp = Some parsed
          \<and> db_fault e \<noteq> Some Connect_fails \<and> db_fault e \<noteq> Some Commit_fails
          \<and> scd2_loop (db_fault e) (utc_instant parsed) 0 (statuses data) d = (True, d')
          \<and> apply_retention_policy cfg e d' = Some d''
          \<and> persist cfg lib e data d = (True, d'')"
  then show "fst (persist cfg lib e data d)" by auto
qed

lemma persist_completes:
  assumes "success data" "checked_at data = Some stamp" "stamp \<noteq> []"
    "fromisoformat lib stamp = Some parsed"
    "db_fault e \<noteq> Some Connect_fails" "db_fault e \<noteq> Some Commit_fails"
    "scd2_loop (db_fault e) (utc_instant parsed) 0 (statuses data) d = (True, d')"
    "apply_retention_policy cfg e d' = Some d''"
  shows "persist cfg lib e data d = (True, d'')"
  using assms by (simp add: persist_def)

lemma persist_false_rows:
  assumes "\<not> fst (persist cfg lib e data d)" and "retention_fault e \<noteq> Some Clock_raises"
  shows "table_rows (snd (persist cfg lib e data d)) = table_rows d"
proof (cases rule: persist_cases [of cfg lib e data d])
  case refused
  then show ?thesis by simp
next
  case (rolled_back stamp parsed d')
  then show ?thesis by (simp add: rollback_def)
next
  case (clock stamp parsed d')
  with assms(2) show ?thesis
    by (auto simp: apply_retention_policy_def Let_def split: option.splits retention_fault.splits)
next
  case (completed stamp parsed d' d'')
  with assms(1) show ?thesis by simp
qed

lemma fst_persist:
  "fst (persist cfg lib e data d) \<longleftrightarrow>
     (case checked_at data of
        None \<Rightarrow> False
      | Some stamp \<Rightarrow>
          success data \<and> stamp \<noteq> [] \<and> db_fault e \<noteq> Some Connect_fails
          \<and> (case fromisoformat lib stamp of
                None \<Rightarrow> False
              | Some parsed \<Rightarrow>
                  fst (scd2_loop (db_fault e) (utc_instant parsed) 0 (statuses data) d)
                  \<and> db_fault e \<noteq> Some Commit_fails
                  \<and> apply_retention_policy cfg e
                       (snd (scd2_loop (db_fault e) (utc_instant parsed) 0 (statuses data) d)) \<noteq> None))"
  by (auto simp: persist_def Let_def split: option.splits prod.splits)

lemma persist_retention_swallowed:
  assumes "retention_fault e = Some Retention_raises"
  shows "fst (persist cfg lib e data d) = fst (persist cfg lib (e\<lparr>retention_fault := None\<rparr>) data d)"
proof -
  have r1: "apply_retention_policy cfg e d' \<noteq> None" for d'
    using assms by (simp add: apply_retention_policy_def)
  have r2: "apply_retention_policy cfg (e\<lparr>retention_fault := None\<rparr>) d' \<noteq> None" for d'
    by (simp add: apply_retention_policy_def Let_def)
  show ?thesis
    unfolding fst_persist using r1 r2 by (simp split: option.splits)
qed

text \<open>
  C5, amended. \<open>persist\<close> returns true only if the connection, the statements of the loop
  and the commit went through without raising, and the store is then the committed one
  after the retention step. When it returns false (the clock of the retention step aside)
  the table is as before the call. An exception inside the guarded block of the retention
  step is swallowed there and does not change what \<open>persist\<close> returns.
\<close>

theorem persist_outcome:
  "(fst (persist cfg lib e data d) \<longrightarrow>
      (\<exists>stamp parsed d'.
          checked_at data = Some stamp \<and> fromisoformat lib stamp = Some parsed
          \<and> db_fault e \<noteq> Some Connect_fails \<and> db_fault e \<noteq> Some Commit_fails
          \<and> scd2_loop (db_fault e) (utc_instant parsed) 0 (statuses data) d = (True, d')
          \<and> apply_retention_policy cfg e d' = Some (snd (persist cfg lib e data d))))
   \<and> (\<not> fst (persist cfg lib e data d) \<and> retention_fault e \<noteq> Some Clock_raises \<longrightarrow>
        table_rows (snd (persist cfg lib e data d)) = table_rows d)
   \<and> (retention_fault e = Some Retention_raises \<longrightarrow>
        fst (persist cfg lib e data d)
          = fst (persist cfg lib (e\<lparr>retention_fault := None\<rparr>) data d))"
proof -
  have "fst (persist cfg lib e data d) \<longrightarrow>
      (\<exists>stamp parsed d'.
          checked_at data = Some stamp \<and> fromisoformat lib stamp = Some parsed
          \<and> db_fault e \<noteq> Some Connect_fails \<and> db_fault e \<noteq> Some Commit_fails
          \<and> scd2_loop (db_fault e) (utc_instant parsed) 0 (statuses data) d = (True, d')
          \<and> apply_retention_policy cfg e d' = Some (snd (persist cfg lib e data d)))"
    unfolding persist_true_iff [of cfg lib e data d] by force
  with persist_false_rows [of cfg lib e data d] persist_retention_swallowed [of e cfg lib data d]
  show ?thesis by blast
qed

theorem persist_outcome_witness:
  "fst (persist sample_config sample_lib (quiet (T1 + 5)) snapshot_A empty_db)
   \<and> scd2_loop None T1 0 (statuses snapshot_A) empty_db = (True, db_A)
   \<and> \<not> fst (persist sample_config sample_lib
              \<lparr> now = T1 + 5, db_fault = Some Commit_fails, retention_fault = None \<rparr>
              snapshot_A empty_db)
   \<and> table_rows (snd (persist sample_config sample_lib
              \<lparr> now = T1 + 5, db_fault = Some Commit_fails, retention_fault = None \<rparr>
              snapshot_A empty_db)) = []
   \<and> fst (persist sample_config sample_lib
              \<lparr> now = T1 + 5, db_fault = None, retention_fault = Some Retention_raises \<rparr>
              snapshot_A empty_db)"
proof -
  let ?c = "\<lparr> now = T1 + 5, db_fault = Some Commit_fails, retention_fault = None \<rparr>"
  let ?r = "\<lparr> now = T1 + 5, db_fault = None, retention_fault = Some Retention_raises \<rparr>"
  have 1: "fst (persist sample_config sample_lib (quiet (T1 + 5)) snapshot_A empty_db)"
    by code_simp
  have 2: "scd2_loop None T1 0 (statuses snapshot_A) empty_db = (True, db_A)" by code_simp
  have 3: "\<not> fst (persist sample_config sample_lib ?c snapshot_A empty_db)" by code_simp
  have 4: "retention_fault ?c \<noteq> Some Clock_raises" by simp
  have 5: "retention_fault ?r = Some Retention_raises" by simp
  have 6: "?r\<lparr>retention_fault := None\<rparr> = quiet (T1 + 5)" by (simp add: quiet_def)
  have 7: "table_rows empty_db = []" by (simp add: empty_db_def)
  from persist_outcome [of sample_config sample_lib ?c snapshot_A empty_db] 3 4 7
  have a: "table_rows (snd (persist sample_config sample_lib ?c snapshot_A empty_db)) = []"
    by simp
  from persist_outcome [of sample_config sample_lib ?r snapshot_A empty_db] 5 1
  have b: "fst (persist sample_config sample_lib ?r snapshot_A empty_db)"
    unfolding 6 by blast
  from 1 2 3 a b show ?thesis by blast
qed

section \<open>Change detection\<close>

lemma dict_eq_iff: "dict_eq a b \<longleftrightarrow> map_of a = map_of b"
proof
  assume e: "dict_eq a b"
  show "map_of a = map_of b"
  proof
    fix k
    show "map_of a k = map_of b k"
    proof (cases "k \<in> fst ` set a")
      case True
      then obtain v where "(k, v) \<in> set a" by auto
      with e show ?thesis by (auto simp: dict_eq_def list_all_iff)
    next
      case False
      show ?thesis
      proof (cases "k \<in> fst ` set b")
        case True
        then obtain v where "(k, v) \<in> set b" by auto
        with e show ?thesis by (auto simp: dict_eq_def list_all_iff)
      next
        case kb: False
        from False have "map_of a k = None" by (simp add: map_of_eq_None_iff)
        moreover from kb have "map_of b k = None" by (simp add: map_of_eq_None_iff)
        ultimately show ?thesis by simp
      qed
    qed
  qed
next
  assume "map_of a = map_of b"
  then show "dict_eq a b" by (simp add: dict_eq_def list_all_iff)
qed

lemma dict_eq_refl: "dict_eq a a"
  by (simp add: dict_eq_iff)

lemma dict_eq_trans: "dict_eq a b \<Longrightarrow> dict_eq b c \<Longrightarrow> dict_eq a c"
  by (simp add: dict_eq_iff)

lemma dict_eq_sym: "dict_eq a b \<Longrightarrow> dict_eq b a"
  by (simp add: dict_eq_iff)

text \<open>The records of one entity decide what the SELECT returns for it.\<close>

lemma select_current_history:
  "select_current (table_rows d) a = select_current (history_of a d) a"
proof -
  have "filter (\<lambda>r. autorizador r = a \<and> is_current r = 1) (history_of a d)
      = filter (\<lambda>r. autorizador r = a \<and> is_current r = 1) (table_rows d)"
    by (auto simp: history_of_def intro: filter_cong)
  then show ?thesis by (simp add: select_current_def)
qed

lemma select_current_cong:
  "history_of a d = history_of a d' \<Longrightarrow>
   select_current (table_rows d) a = select_current (table_rows d') a"
  by (simp add: select_current_history [of d] select_current_history [of d'])

lemma filter_autorizador_update_close:
  "filter (\<lambda>r. autorizador r = a) (update_close ts i rs)
     = update_close ts i (filter (\<lambda>r. autorizador r = a) rs)"
  by (induction rs) (auto simp: update_close_def)

lemma update_close_other_id:
  "\<forall>r \<in> set rs. rec_id r \<noteq> i \<Longrightarrow> update_close ts i rs = rs"
  by (induction rs) (auto simp: update_close_def)

lemma map_rec_id_update_close: "map rec_id (update_close ts i rs) = map rec_id rs"
  by (induction rs) (auto simp: update_close_def)

lemma wf_db_scd2_row:
  assumes "wf_db d"
  shows "wf_db (scd2_row ts a r d)"
proof -
  have ins: "wf_db (insert_current a r ts x)" if "wf_db x" for x
    using that by (auto simp: wf_db_def insert_current_def list_all_iff)
  have lt: "list_all (\<lambda>r. rec_id r < n) xs \<longleftrightarrow> (\<forall>x \<in> set (map rec_id xs). x < n)"
    for n and xs :: "history_record list"
    by (auto simp: list_all_iff)
  have cl: "wf_db (d\<lparr>table_rows := update_close ts i (table_rows d)\<rparr>)" for i
    using assms by (simp add: wf_db_def lt map_rec_id_update_close)
  show ?thesis
    using assms ins cl by (auto simp: scd2_row_def Let_def split: option.splits)
qed

lemma history_of_insert_current:
  "history_of a (insert_current b r ts x)
     = history_of a x @ (if a = b then [\<lparr> rec_id = next_id x, autorizador = b, status_json = r,
          valid_from = ts, valid_to = None, is_current = 1 \<rparr>] else [])"
  by (auto simp: history_of_def insert_current_def)

lemma history_of_close:
  "history_of a (d\<lparr>table_rows := update_close ts i (table_rows d)\<rparr>)
     = update_close ts i (history_of a d)"
  by (simp add: history_of_def filter_autorizador_update_close)

lemma history_of_scd2_row_other:
  assumes "wf_db d" and "a \<noteq> b"
  shows "history_of a (scd2_row ts b r d) = history_of a d"
proof (cases "select_current (table_rows d) b")
  case None
  with assms show ?thesis by (simp add: scd2_row_def history_of_insert_current)
next
  case (Some c)
  from select_current_Some [OF Some] have c: "c \<in> set (table_rows d)" "autorizador c = b" by auto
  have "\<forall>x \<in> set (history_of a d). rec_id x \<noteq> rec_id c"
  proof
    fix x assume "x \<in> set (history_of a d)"
    then have x: "x \<in> set (table_rows d)" "autorizador x = a" by (auto simp: history_of_def)
    with c assms(2) have "x \<noteq> c" by auto
    moreover from assms(1) have "inj_on rec_id (set (table_rows d))"
      by (simp add: wf_db_def distinct_map)
    ultimately show "rec_id x \<noteq> rec_id c" using x c by (auto dest: inj_onD)
  qed
  then have "update_close ts (rec_id c) (history_of a d) = history_of a d"
    by (rule update_close_other_id)
  with Some assms(2) show ?thesis
    by (simp add: scd2_row_def history_of_insert_current history_of_close)
qed


text \<open>After the step the entity has a current record that equals the row.\<close>

lemma currents_after_scd2_row:
  assumes "scd2_inv (table_rows d)"
  shows "\<exists>c. select_current (table_rows (scd2_row ts a r d)) a = Some c \<and> dict_eq (status_json c) r"
proof (cases "select_current (table_rows d) a")
  case None
  then have "filter (\<lambda>x. autorizador x = a \<and> is_current x = 1) (table_rows d) = []"
    by (simp add: select_current_None)
  with None show ?thesis
    by (simp add: scd2_row_def insert_current_def select_current_def dict_eq_refl)
next
  case (Some c)
  show ?thesis
  proof (cases "status_changed (status_json c) r")
    case True
    from no_current_after_close [OF assms Some, of ts]
    have "filter (\<lambda>x. autorizador x = a \<and> is_current x = 1)
        (update_close ts (rec_id c) (table_rows d)) = []"
      by (auto simp: filter_empty_conv)
    with Some True show ?thesis
      by (simp add: scd2_row_def insert_current_def select_current_def dict_eq_refl)
  next
    case False
    with Some show ?thesis by (auto simp: scd2_row_def status_changed_def)
  qed
qed

lemma scd2_row_unchanged:
  assumes "select_current (table_rows d) a = Some c" and "dict_eq (status_json c) r"
  shows "scd2_row ts a r d = d"
  using assms by (simp add: scd2_row_def status_changed_def)

lemma entity_of_Some:
  "entity_of r = Some s \<longleftrightarrow> row_get r (ascii ''autorizador'') = JStr s \<and> s \<noteq> []"
  by (auto simp: entity_of_def split: jval.splits if_splits)

lemma entity_of_None_skipped_or_list:
  "entity_of r = None \<Longrightarrow> truthy (row_get r (ascii ''autorizador'')) \<Longrightarrow>
   \<exists>l. row_get r (ascii ''autorizador'') = JList l"
  by (cases "row_get r (ascii ''autorizador'')") (auto simp: entity_of_def)

text \<open>One round of the loop, by the entity of its row.\<close>

lemma scd2_loop_Cons_entity:
  assumes "entity_of r = Some s"
  shows "scd2_loop f ts i (r # rest) d =
     (if f = Some (Statement_fails i) then (False, d)
      else scd2_loop f ts (Suc i) rest (scd2_row ts s r d))"
  using assms by (simp add: entity_of_Some Let_def)

lemma scd2_loop_Cons_no_entity:
  assumes "entity_of r = None" and "scd2_loop f ts i (r # rest) d = (True, d')"
  shows "scd2_loop f ts (Suc i) rest d = (True, d')"
proof (cases "truthy (row_get r (ascii ''autorizador''))")
  case True
  from entity_of_None_skipped_or_list [OF assms(1) True] obtain l
    where "row_get r (ascii ''autorizador'') = JList l" by blast
  with True assms(2) show ?thesis by (simp add: Let_def split: if_splits)
next
  case False
  with assms(2) show ?thesis by (simp add: Let_def)
qed

lemma scd2_loop_Cons_entity_True:
  assumes "entity_of r = Some s" and "scd2_loop f ts i (r # rest) d = (True, d')"
  shows "scd2_loop f ts (Suc i) rest (scd2_row ts s r d) = (True, d')"
proof -
  from assms(2) have "(if f = Some (Statement_fails i) then (False, d)
      else scd2_loop f ts (Suc i) rest (scd2_row ts s r d)) = (True, d')"
    by (simp only: scd2_loop_Cons_entity [OF assms(1)])
  then show ?thesis by (simp split: if_splits)
qed

lemma wf_db_scd2_loop:
  "wf_db d \<Longrightarrow> wf_db (snd (scd2_loop f ts i rows d))"
proof (induction rows arbitrary: i d)
  case Nil
  then show ?case by simp
next
  case (Cons r rest)
  show ?case
  proof (cases "row_get r (ascii ''autorizador'')")
    case JNone
    with Cons show ?thesis by simp
  next
    case (JStr s)
    with Cons wf_db_scd2_row [OF Cons.prems, of ts s r] show ?thesis by simp
  next
    case (JList l)
    with Cons show ?thesis by simp
  qed
qed








section \<open>Idempotence of persist\<close>

lemma scd2_loop_True_no_list:
  "scd2_loop f ts i rows d = (True, d') \<Longrightarrow>
   \<forall>r \<in> set rows. entity_of r = None \<longrightarrow> \<not> truthy (row_get r (ascii ''autorizador''))"
proof (induction rows arbitrary: i d)
  case Nil
  show ?case by simp
next
  case (Cons x xs)
  show ?case
  proof (cases "entity_of x")
    case None
    have "\<not> truthy (row_get x (ascii ''autorizador''))"
    proof
      assume t: "truthy (row_get x (ascii ''autorizador''))"
      from entity_of_None_skipped_or_list [OF None t] obtain l
        where "row_get x (ascii ''autorizador'') = JList l" by blast
      with t Cons.prems show False by (simp add: Let_def split: if_splits)
    qed
    with Cons.IH [OF scd2_loop_Cons_no_entity [OF None Cons.prems]] show ?thesis by simp
  next
    case (Some s)
    with Cons.IH [OF scd2_loop_Cons_entity_True [OF Some Cons.prems]] show ?thesis by simp
  qed
qed

text \<open>Rows that equal the current records of their entities change nothing.\<close>

lemma scd2_loop_settled:
  assumes "\<forall>r \<in> set rows. \<forall>s. entity_of r = Some s \<longrightarrow>
      (\<exists>c. select_current (table_rows d) s = Some c \<and> dict_eq (status_json c) r)"
    and "\<forall>r \<in> set rows. entity_of r = None \<longrightarrow> \<not> truthy (row_get r (ascii ''autorizador''))"
  shows "scd2_loop None ts i rows d = (True, d)"
  using assms
proof (induction rows arbitrary: i)
  case Nil
  show ?case by simp
next
  case (Cons x xs)
  from Cons have rest: "scd2_loop None ts (Suc i) xs d = (True, d)" by simp
  show ?case
  proof (cases "entity_of x")
    case None
    with Cons.prems(2) have "\<not> truthy (row_get x (ascii ''autorizador''))" by simp
    with rest show ?thesis by (simp add: Let_def)
  next
    case (Some s)
    with Cons.prems(1) obtain c where
      "select_current (table_rows d) s = Some c" "dict_eq (status_json c) x" by auto
    then have "scd2_row ts s x d = d" by (rule scd2_row_unchanged)
    with rest show ?thesis by (simp add: scd2_loop_Cons_entity [OF Some] del: scd2_loop.simps)
  qed
qed

text \<open>
  Once the current record of an entity equals a row, later rows leave the records of the
  entity alone as long as those for the same entity equal that row.
\<close>

lemma history_of_scd2_loop_settled:
  assumes "wf_db d" and "select_current (table_rows d) s = Some c" and "dict_eq (status_json c) x"
    and "\<forall>r \<in> set rows. entity_of r = Some s \<longrightarrow> dict_eq x r"
    and "scd2_loop f ts i rows d = (True, d')"
  shows "history_of s d' = history_of s d"
  using assms(1,2,4,5)
proof (induction rows arbitrary: i d)
  case Nil
  then show ?case by simp
next
  case (Cons y ys)
  show ?case
  proof (cases "entity_of y")
    case None
    from Cons.IH [OF Cons.prems(1,2) _ scd2_loop_Cons_no_entity [OF None Cons.prems(4)]]
      Cons.prems(3)
    show ?thesis by simp
  next
    case (Some b)
    note loop = scd2_loop_Cons_entity_True [OF Some Cons.prems(4)]
    show ?thesis
    proof (cases "b = s")
      case True
      with Some Cons.prems(3) have "dict_eq x y" by simp
      with assms(3) have "dict_eq (status_json c) y" by (rule dict_eq_trans)
      with Cons.prems(2) True have "scd2_row ts b y d = d" by (simp add: scd2_row_unchanged)
      with loop Cons.IH [OF Cons.prems(1,2)] Cons.prems(3) show ?thesis by simp
    next
      case False
      then have ne: "s \<noteq> b" by simp
      note h = history_of_scd2_row_other [OF Cons.prems(1) ne, of ts y]
      from select_current_cong [OF h] Cons.prems(2)
      have "select_current (table_rows (scd2_row ts b y d)) s = Some c" by simp
      from Cons.IH [OF wf_db_scd2_row [OF Cons.prems(1)] this _ loop] Cons.prems(3) h
      show ?thesis by simp
    qed
  qed
qed

text \<open>After a loop that ended, every entity of the snapshot has a current record equal to its row.\<close>

lemma scd2_loop_establishes:
  assumes "scd2_inv (table_rows d)" and "wf_db d"
    and "\<forall>r \<in> set rows. \<forall>r' \<in> set rows. \<forall>a.
           entity_of r = Some a \<and> entity_of r' = Some a \<longrightarrow> dict_eq r r'"
    and "scd2_loop f ts i rows d = (True, d')"
  shows "\<forall>r \<in> set rows. \<forall>s. entity_of r = Some s \<longrightarrow>
      (\<exists>c. select_current (table_rows d') s = Some c \<and> dict_eq (status_json c) r)"
  using assms
proof (induction rows arbitrary: i d)
  case Nil
  show ?case by simp
next
  case (Cons x xs)
  have compat: "\<forall>r \<in> set xs. \<forall>r' \<in> set xs. \<forall>a.
           entity_of r = Some a \<and> entity_of r' = Some a \<longrightarrow> dict_eq r r'"
  proof (intro ballI allI impI)
    fix r r' a
    assume "r \<in> set xs" "r' \<in> set xs" "entity_of r = Some a \<and> entity_of r' = Some a"
    with Cons.prems(3) [rule_format, of r r' a] show "dict_eq r r'" by simp
  qed
  have head: "dict_eq x r" if "r \<in> set xs" "entity_of r = Some a" "entity_of x = Some a" for r a
    using Cons.prems(3) [rule_format, of x r a] that by simp
  show ?case
  proof (cases "entity_of x")
    case None
    note tail = Cons.IH [OF Cons.prems(1,2) compat scd2_loop_Cons_no_entity [OF None Cons.prems(4)]]
    show ?thesis
    proof (intro ballI allI impI)
      fix r s assume r: "r \<in> set (x # xs)" and e: "entity_of r = Some s"
      with None have "r \<in> set xs" by auto
      with tail e show "\<exists>c. select_current (table_rows d') s = Some c \<and> dict_eq (status_json c) r"
        by blast
    qed
  next
    case (Some s)
    let ?d1 = "scd2_row ts s x d"
    note loop = scd2_loop_Cons_entity_True [OF Some Cons.prems(4)]
    note inv1 = scd2_inv_scd2_row [OF Cons.prems(1), of ts s x]
    note wf1 = wf_db_scd2_row [OF Cons.prems(2), of ts s x]
    note tail = Cons.IH [OF inv1 wf1 compat loop]
    from currents_after_scd2_row [OF Cons.prems(1), of ts s x] obtain c where
      c: "select_current (table_rows ?d1) s = Some c" "dict_eq (status_json c) x" by blast
    have "\<forall>r \<in> set xs. entity_of r = Some s \<longrightarrow> dict_eq x r"
      using head Some by simp
    from history_of_scd2_loop_settled [OF wf1 c this loop]
    have "history_of s d' = history_of s ?d1" .
    from select_current_cong [OF this] c(1)
    have cx: "select_current (table_rows d') s = Some c" by simp
    show ?thesis
    proof (intro ballI allI impI)
      fix r s' assume r: "r \<in> set (x # xs)" and e: "entity_of r = Some s'"
      show "\<exists>c. select_current (table_rows d') s' = Some c \<and> dict_eq (status_json c) r"
      proof (cases "r = x")
        case True
        with e Some have "s' = s" by simp
        with cx c(2) True show ?thesis by blast
      next
        case False
        with r have "r \<in> set xs" by simp
        with tail e show ?thesis by blast
      qed
    qed
  qed
qed

text \<open>Retention does not touch what the SELECT sees, the invariant given.\<close>

lemma filter_filter_implied:
  "\<forall>x \<in> set xs. P x \<longrightarrow> Q x \<Longrightarrow> filter P (filter Q xs) = filter P xs"
  by (induction xs) auto

lemma currents_of_retention:
  assumes "scd2_inv (table_rows d)" and "apply_retention_policy cfg e d = Some d'"
  shows "currents_of a d' = currents_of a d"
proof -
  from assms(1) have "\<forall>r \<in> set (table_rows d).
      autorizador r = a \<and> is_current r = 1 \<longrightarrow> \<not> expired t r" for t
    by (auto simp: scd2_inv_def list_all_iff expired_def)
  then have "filter (\<lambda>r. autorizador r = a \<and> is_current r = 1)
        (filter (\<lambda>r. \<not> expired t r) (table_rows d))
      = filter (\<lambda>r. autorizador r = a \<and> is_current r = 1) (table_rows d)" for t
    by (rule filter_filter_implied)
  with assms(2) show ?thesis
    by (auto simp: apply_retention_policy_def currents_of_def Let_def
        split: option.splits retention_fault.splits)
qed

lemma select_current_currents:
  "select_current (table_rows d) a =
     (case currents_of a d of [] \<Rightarrow> None
      | c # cs \<Rightarrow> Some (fold (\<lambda>r best. if valid_from best < valid_from r then r else best) cs c))"
  by (simp add: select_current_def currents_of_def)

lemma retention_idempotent:
  assumes "apply_retention_policy cfg e d = Some d'"
  shows "apply_retention_policy cfg e d' = Some d'"
  using assms
  by (auto simp: apply_retention_policy_def Let_def split: option.splits retention_fault.splits)

text \<open>
  C2, amended. Take a store with the invariant of the history and the guarantees of its
  primary key (every store grown from the empty one has both), and a snapshot in which the
  rows of one entity are equal. After a successful persist, a second persist of the same
  snapshot in which nothing raises returns true, inserts and closes nothing - the store
  changes only by what its retention step prunes, and not at all when the step runs at
  the same instant - and every entity of the snapshot has exactly one current record,
  equal to its row.
\<close>

theorem persist_twice:
  assumes "scd2_inv (table_rows d)" and "wf_db d"
    and "\<forall>r \<in> set (statuses data). \<forall>r' \<in> set (statuses data). \<forall>a.
           entity_of r = Some a \<and> entity_of r' = Some a \<longrightarrow> dict_eq r r'"
    and "persist cfg lib e1 data d = (True, d1)"
    and "db_fault e2 = None" and "retention_fault e2 \<noteq> Some Clock_raises"
  shows "\<exists>d2. persist cfg lib e2 data d1 = (True, d2)
     \<and> apply_retention_policy cfg e2 d1 = Some d2
     \<and> next_id d2 = next_id d1
     \<and> (\<forall>r \<in> set (statuses data). \<forall>a. entity_of r = Some a \<longrightarrow>
          (\<exists>c. currents_of a d2 = [c] \<and> dict_eq (status_json c) r))
     \<and> (e2 = e1 \<longrightarrow> d2 = d1)"
proof -
  from assms(4) have "fst (persist cfg lib e1 data d)" by simp
  then obtain stamp parsed d' d'' where
    ok: "success data" "checked_at data = Some stamp" "stamp \<noteq> []"
      "fromisoformat lib stamp = Some parsed"
    and loop: "scd2_loop (db_fault e1) (utc_instant parsed) 0 (statuses data) d = (True, d')"
    and ret: "apply_retention_policy cfg e1 d' = Some d''"
    and res: "persist cfg lib e1 data d = (True, d'')"
    unfolding persist_true_iff by blast
  from res assms(4) have d1: "d'' = d1" by simp
  have inv': "scd2_inv (table_rows d')"
    using scd2_inv_scd2_loop [OF assms(1), of "db_fault e1" "utc_instant parsed" 0 "statuses data"]
      loop by simp
  from scd2_inv_retention [OF inv' ret] d1 have inv1: "scd2_inv (table_rows d1)" by simp
  have sel: "select_current (table_rows d1) a = select_current (table_rows d') a" for a
    using currents_of_retention [OF inv' ret, of a] d1 by (simp add: select_current_currents)
  from scd2_loop_establishes [OF assms(1,2,3) loop] sel
  have settled: "\<forall>r \<in> set (statuses data). \<forall>s. entity_of r = Some s \<longrightarrow>
      (\<exists>c. select_current (table_rows d1) s = Some c \<and> dict_eq (status_json c) r)" by simp
  from scd2_loop_settled [OF settled scd2_loop_True_no_list [OF loop]] assms(5)
  have loop2: "scd2_loop (db_fault e2) (utc_instant parsed) 0 (statuses data) d1 = (True, d1)"
    by simp
  from assms(6) obtain d2 where ret2: "apply_retention_policy cfg e2 d1 = Some d2"
    using retention_swallowed by blast
  from assms(5) have "db_fault e2 \<noteq> Some Connect_fails" "db_fault e2 \<noteq> Some Commit_fails"
    by simp_all
  with ok loop2 ret2 have p2: "persist cfg lib e2 data d1 = (True, d2)"
    by (intro persist_completes)
  from ret2 have nid: "next_id d2 = next_id d1"
    by (auto simp: apply_retention_policy_def Let_def split: option.splits retention_fault.splits)
  have cur: "\<exists>c. currents_of a d2 = [c] \<and> dict_eq (status_json c) r"
    if "r \<in> set (statuses data)" "entity_of r = Some a" for r a
  proof -
    from settled that obtain c where
      c: "select_current (table_rows d1) a = Some c" "dict_eq (status_json c) r" by blast
    from scd2_inv_currents [OF inv1 c(1)] have "currents_of a d1 = [c]"
      by (simp add: currents_of_def)
    with currents_of_retention [OF inv1 ret2, of a] c(2) show ?thesis by simp
  qed
  have same: "d2 = d1" if "e2 = e1"
    using retention_idempotent [OF ret] ret2 d1 that by simp
  from p2 ret2 nid cur same show ?thesis by blast
qed


theorem persist_twice_witness:
  "scd2_inv (table_rows empty_db) \<and> wf_db empty_db
   \<and> persist sample_config sample_lib (quiet (T1 + 5)) snapshot_A empty_db = (True, db_A)
   \<and> persist sample_config sample_lib (quiet (T1 + 5)) snapshot_A db_A = (True, db_A)
   \<and> entity_of row_verde = Some (ascii ''SVAN'')
   \<and> currents_of (ascii ''SVAN'') db_A = [record_verde]"
proof -
  have 1: "scd2_inv (table_rows empty_db)" by code_simp
  have 2: "wf_db empty_db" by code_simp
  have 3: "\<forall>r \<in> set (statuses snapshot_A). \<forall>r' \<in> set (statuses snapshot_A). \<forall>a.
      entity_of r = Some a \<and> entity_of r' = Some a \<longrightarrow> dict_eq r r'"
    by (simp add: snapshot_A_def dict_eq_refl)
  have 4: "persist sample_config sample_lib (quiet (T1 + 5)) snapshot_A empty_db = (True, db_A)"
    by code_simp
  have 5: "db_fault (quiet (T1 + 5)) = None" by (simp add: quiet_def)
  have 6: "retention_fault (quiet (T1 + 5)) \<noteq> Some Clock_raises" by (simp add: quiet_def)
  have 7: "entity_of row_verde = Some (ascii ''SVAN'')" by code_simp
  have 8: "currents_of (ascii ''SVAN'') db_A = [record_verde]" by code_simp
  from persist_twice [OF 1 2 3 4 5 6]
  have "persist sample_config sample_lib (quiet (T1 + 5)) snapshot_A db_A = (True, db_A)"
    by auto
  with 1 2 4 7 8 show ?thesis by simp
qed

text \<open>
  C2 as stated fails for a snapshot with two different rows for one entity: each call
  closes and inserts for both rows, so the second call adds two records again.
\<close>

theorem persist_twice_duplicate_entity:
  "success snapshot_dup \<and> checked_at snapshot_dup = Some (ascii ''2024-01-15T10:30:00'')
   \<and> fst (persist sample_config sample_lib (quiet (T1 + 5)) snapshot_dup empty_db)
   \<and> length (table_rows (snd (persist sample_config sample_lib (quiet (T1 + 5)) snapshot_dup
        empty_db))) = 2
   \<and> fst (persist sample_config sample_lib (quiet (T1 + 5)) snapshot_dup
        (snd (persist sample_config sample_lib (quiet (T1 + 5)) snapshot_dup empty_db)))
   \<and> length (table_rows (snd (persist sample_config sample_lib (quiet (T1 + 5)) snapshot_dup
        (snd (persist sample_config sample_lib (quiet (T1 + 5)) snapshot_dup empty_db))))) = 4"
  by code_simp

lemma next_id_scd2_row: "next_id d \<le> next_id (scd2_row ts a r d)"
  by (simp add: scd2_row_def insert_current_def Let_def split: option.splits)

lemma next_id_scd2_loop: "next_id d \<le> next_id (snd (scd2_loop f ts i rows d))"
proof (induction rows arbitrary: i d)
  case Nil
  show ?case by simp
next
  case (Cons r rest)
  show ?case
  proof (cases "row_get r (ascii ''autorizador'')")
    case JNone
    with Cons show ?thesis by simp
  next
    case (JStr s)
    from Cons [of "scd2_row ts s r d" "Suc i"] Cons [of d "Suc i"]
      next_id_scd2_row [of d ts s r] JStr
    show ?thesis by (auto simp: Let_def)
  next
    case (JList l)
    with Cons show ?thesis by simp
  qed
qed

lemma wf_db_retention:
  "wf_db d \<Longrightarrow> apply_retention_policy cfg e d = Some d' \<Longrightarrow> wf_db d'"
  by (auto simp: apply_retention_policy_def wf_db_def Let_def distinct_map_filter list_all_iff
      split: option.splits retention_fault.splits)

lemma wf_db_persist:
  assumes "wf_db d"
  shows "wf_db (snd (persist cfg lib e data d))"
proof (cases rule: persist_cases [of cfg lib e data d])
  case refused
  with assms show ?thesis by simp
next
  case (rolled_back stamp parsed d')
  from next_id_scd2_loop [of d "db_fault e" "utc_instant parsed" 0 "statuses data"] rolled_back(3)
  have "next_id d \<le> next_id d'" by simp
  with assms rolled_back(4) show ?thesis by (auto simp: rollback_def wf_db_def list_all_iff)
next
  case (clock stamp parsed d')
  with wf_db_scd2_loop [OF assms, of "db_fault e" "utc_instant parsed" 0 "statuses data"]
  show ?thesis by simp
next
  case (completed stamp parsed d' d'')
  with wf_db_scd2_loop [OF assms, of "db_fault e" "utc_instant parsed" 0 "statuses data"]
  have "wf_db d'" by simp
  with completed show ?thesis by (auto dest: wf_db_retention)
qed

text \<open>Every store grown from the empty one has the guarantees of the primary key.\<close>

lemma wf_db_run_ops:
  "wf_db d \<Longrightarrow> wf_db (run_ops cfg lib ops d)"
  unfolding run_ops_def
proof (induction ops arbitrary: d)
  case Nil
  then show ?case by simp
next
  case (Cons x xs)
  have "wf_db (run_op cfg lib x d)"
  proof (cases x)
    case (Persist e data)
    with Cons.prems show ?thesis by (simp add: wf_db_persist)
  next
    case (Retention e)
    with Cons.prems show ?thesis by (auto split: option.splits dest: wf_db_retention)
  qed
  with Cons.IH show ?case by simp
qed

lemma wf_db_empty: "wf_db empty_db"
  by (simp add: wf_db_def empty_db_def)

section \<open>Extraction and enrichment\<close>

lemma keys_dict_update:
  "fst ` set (dict_update d other) = fst ` set d \<union> fst ` set other"
  unfolding dict_update_def
proof (induction other arbitrary: d)
  case Nil
  show ?case by simp
next
  case (Cons kv rest)
  obtain k v where kv: "kv = (k, v)" by (cases kv)
  from Cons [of "AList.update k v d"] kv show ?case by (auto simp: dom_update)
qed

lemma map_of_dict_update_other:
  "k \<notin> fst ` set other \<Longrightarrow> map_of (dict_update d other) k = map_of d k"
  unfolding dict_update_def
proof (induction other arbitrary: d)
  case Nil
  show ?case by simp
next
  case (Cons kv rest)
  obtain k' v where kv: "kv = (k', v)" by (cases kv)
  with Cons.prems have "k \<noteq> k'" "k \<notin> fst ` set rest" by auto
  with Cons.IH [of "AList.update k' v d"] kv show ?case by (simp add: update_conv')
qed

lemma keys_py_dict: "fst ` set (py_dict items) = fst ` set items"
proof -
  have "py_dict items = dict_update [] items" by (simp add: py_dict_def dict_update_def)
  then show ?thesis by (simp add: keys_dict_update)
qed

text \<open>The keys of the metadata of a row.\<close>

lemma keys_scan_related:
  "fst ` set (scan_related entries a meta) \<subseteq> fst ` set meta \<union> {ascii ''relacionado_a''}"
proof (induction entries arbitrary: meta)
  case Nil
  show ?case by auto
next
  case (Cons e es)
  obtain code info where e: "e = (code, info)" by (cases e)
  from Cons [of "if entry_contains info a then [(ascii ''relacionado_a'', JStr code)] else meta"] e
  show ?case by (auto split: if_splits)
qed

lemma keys_AUTORIZADOR_INFO:
  assumes "(s, m) \<in> set AUTORIZADOR_INFO"
  shows "fst ` set m \<subseteq> set meta_keys"
proof -
  have "list_all (\<lambda>(s, m). list_all (\<lambda>(k, v). k \<in> set meta_keys) m) AUTORIZADOR_INFO"
    by code_simp
  with assms show ?thesis by (fastforce simp: list_all_iff)
qed

lemma keys_enrich_meta: "fst ` set (enrich_meta a) \<subseteq> set meta_keys"
proof -
  define m where "m = (case a of
      JStr s \<Rightarrow> (case map_of AUTORIZADOR_INFO s of Some m \<Rightarrow> m | None \<Rightarrow> [])
    | _ \<Rightarrow> [])"
  have m: "fst ` set m \<subseteq> set meta_keys"
  proof (cases a)
    case (JStr s)
    show ?thesis
    proof (cases "map_of AUTORIZADOR_INFO s")
      case None
      with JStr show ?thesis by (simp add: m_def)
    next
      case (Some info)
      then have "(s, info) \<in> set AUTORIZADOR_INFO" by (rule map_of_SomeD)
      from keys_AUTORIZADOR_INFO [OF this] JStr Some show ?thesis by (simp add: m_def)
    qed
  qed (simp_all add: m_def)
  have "ascii ''relacionado_a'' \<in> set meta_keys" by code_simp
  with m have "fst ` set m \<union> {ascii ''relacionado_a''} \<subseteq> set meta_keys" by simp
  with keys_scan_related [of AUTORIZADOR_INFO a m]
  have s: "fst ` set (scan_related AUTORIZADOR_INFO a m) \<subseteq> set meta_keys"
    by (rule subset_trans)
  have "enrich_meta a = (if m = [] then scan_related AUTORIZADOR_INFO a m else m)"
    by (simp only: enrich_meta_def Let_def m_def)
  with m s show ?thesis by (simp split: if_splits)
qed

lemma meta_keys_normalized:
  assumes "ascii_stable ud" and "k \<in> set meta_keys"
  shows "normalize_key ud k = k"
proof -
  have "list_all (\<lambda>k. list_all key_char k) meta_keys" by code_simp
  with assms(2) have "list_all key_char k" by (simp add: list_all_iff)
  then have 1: "\<forall>c \<in> set k. key_char c" by (simp add: list_all_iff)
  have "list_all (\<lambda>k. hd k \<noteq> underscore \<and> last k \<noteq> underscore) meta_keys" by code_simp
  with assms(2) have 2: "k \<noteq> [] \<longrightarrow> hd k \<noteq> underscore \<and> last k \<noteq> underscore"
    by (simp add: list_all_iff)
  have "list_all (\<lambda>k. \<not> repeated_underscore k) meta_keys" by code_simp
  with assms(2) have 3: "\<not> repeated_underscore k" by (simp add: list_all_iff)
  from assms(1) 1 2 3 show ?thesis by (rule normalize_key_fixed)
qed

lemma keys_normalized_meta:
  "fst ` set (py_dict (map (\<lambda>(k, v). (normalize_key ud k, v)) m)) = normalize_key ud ` fst ` set m"
proof -
  have "fst ` set (map (\<lambda>(k, v). (normalize_key ud k, v)) m) = normalize_key ud ` fst ` set m"
    by (induction m) auto
  then show ?thesis by (simp only: keys_py_dict)
qed

lemma meta_keys_not_header:
  assumes "ascii_stable ud" and "key \<notin> set meta_keys"
  shows "key \<notin> fst ` set (py_dict (map (\<lambda>(k, v). (normalize_key ud k, v)) (enrich_meta a)))"
proof
  assume "key \<in> fst ` set (py_dict (map (\<lambda>(k, v). (normalize_key ud k, v)) (enrich_meta a)))"
  then have "key \<in> normalize_key ud ` fst ` set (enrich_meta a)"
    by (simp only: keys_normalized_meta)
  then obtain k where k: "k \<in> fst ` set (enrich_meta a)" "normalize_key ud k = key"
    by (metis imageE)
  with keys_enrich_meta [of a] have m: "k \<in> set meta_keys" by blast
  with meta_keys_normalized [OF assms(1)] k have "key \<in> set meta_keys" by simp
  with assms(2) show False by simp
qed

text \<open>The value of a cell with an image is a word of the vocabulary.\<close>

lemma status_words_IMG_MAP:
  assumes "map_of IMG_MAP f = Some w"
  shows "w \<in> set status_words"
proof -
  have "list_all (\<lambda>(k, w). w \<in> set status_words) IMG_MAP" by code_simp
  moreover from assms have "(f, w) \<in> set IMG_MAP" by (rule map_of_SomeD)
  ultimately have "snd (f, w) \<in> set status_words"
    unfolding list_all_iff split_beta by (rule bspec)
  then show ?thesis by simp
qed

lemma cell_value_img:
  assumes "td_img cell \<noteq> None" and "cell_value cell = Some v"
  shows "status_word v"
proof -
  define unknown where "unknown = ascii ''desconhecido''"
  have u: "unknown \<in> set status_words" unfolding unknown_def by code_simp
  from assms(1) obtain i where i: "td_img cell = Some i" by auto
  obtain osrc where o: "i = Img osrc" by (cases i)
  from assms(2) i o obtain src where src: "osrc = Some src"
    unfolding cell_value_def by (cases osrc) simp_all
  from assms(2) i o src
  have v: "v = JStr (case map_of IMG_MAP (last_segment src) of Some s \<Rightarrow> s | None \<Rightarrow> unknown)"
    unfolding cell_value_def unknown_def by simp
  show ?thesis
  proof (cases "map_of IMG_MAP (last_segment src)")
    case None
    with v u show ?thesis by (simp add: status_word_def)
  next
    case (Some w)
    from status_words_IMG_MAP [OF Some] v Some show ?thesis by (simp add: status_word_def)
  qed
qed

text \<open>The loop over the cells: the keys it sets, and the value left under a key.\<close>

lemma parse_cells_keys:
  assumes "parse_cells ud hs cells r a = Some (r', a')" and "length cells = length hs"
  shows "fst ` set r' = fst ` set r \<union> normalize_key ud ` set hs"
  using assms
proof (induction ud hs cells r a rule: parse_cells.induct)
  case (1 ud hs r a)
  then show ?case by simp
next
  case (2 ud cell cells r a)
  then show ?case by simp
next
  case (3 ud h hs cell cells r a)
  from "3.prems"(1) obtain v where v: "cell_value cell = Some v"
    by (auto simp: Let_def split: option.splits)
  with "3.prems" have "parse_cells ud hs cells (AList.update (normalize_key ud h) v r)
      (if normalize_key ud h = ascii ''autorizador'' then v else a) = Some (r', a')"
    by (simp add: Let_def)
  from "3.IH" [OF refl v this] "3.prems"(2)
  have "fst ` set r' = fst ` set (AList.update (normalize_key ud h) v r) \<union> normalize_key ud ` set hs"
    by simp
  also have "\<dots> = fst ` set r \<union> normalize_key ud ` set (h # hs)"
    by (simp add: dom_update insert_commute Un_commute Un_left_commute)
  finally show ?case .
qed

lemma parse_cells_value:
  assumes "parse_cells ud hs cells r a = Some (r', a')"
    and "\<forall>(h, cell) \<in> set (zip hs cells). normalize_key ud h = k \<longrightarrow> td_img cell \<noteq> None"
    and "\<forall>v. map_of r k = Some v \<longrightarrow> status_word v"
  shows "\<forall>v. map_of r' k = Some v \<longrightarrow> status_word v"
  using assms
proof (induction ud hs cells r a rule: parse_cells.induct)
  case (1 ud hs r a)
  then show ?case by simp
next
  case (2 ud cell cells r a)
  then show ?case by simp
next
  case (3 ud h hs cell cells r a)
  from "3.prems"(1) obtain v where v: "cell_value cell = Some v"
    by (auto simp: Let_def split: option.splits)
  with "3.prems" have run: "parse_cells ud hs cells (AList.update (normalize_key ud h) v r)
      (if normalize_key ud h = ascii ''autorizador'' then v else a) = Some (r', a')"
    by (simp add: Let_def)
  from "3.prems"(2) have rest: "\<forall>(h, cell) \<in> set (zip hs cells).
      normalize_key ud h = k \<longrightarrow> td_img cell \<noteq> None" by simp
  have "\<forall>w. map_of (AList.update (normalize_key ud h) v r) k = Some w \<longrightarrow> status_word w"
  proof (cases "normalize_key ud h = k")
    case True
    with "3.prems"(2) have "td_img cell \<noteq> None" by simp
    from cell_value_img [OF this v] True show ?thesis by (simp add: update_conv')
  next
    case False
    with "3.prems"(3) show ?thesis by (simp add: update_conv')
  qed
  from "3.IH" [OF refl v run rest this] show ?case .
qed


lemma parse_row_Some:
  assumes "parse_row ud hs t = Some r"
  obtains r0 a where "length (tds t) = length hs"
    and "parse_cells ud hs (tds t) [] JNone = Some (r0, a)"
    and "r = dict_update r0 (py_dict (map (\<lambda>(k, v). (normalize_key ud k, v)) (enrich_meta a)))"
  using assms unfolding parse_row_def
  by (auto split: if_splits option.splits prod.splits)

lemma parse_row_keys:
  assumes "parse_row ud hs t = Some r"
  shows "normalize_key ud ` set hs \<subseteq> fst ` set r"
proof -
  from assms obtain r0 a where len: "length (tds t) = length hs"
    and cells: "parse_cells ud hs (tds t) [] JNone = Some (r0, a)"
    and r: "r = dict_update r0 (py_dict (map (\<lambda>(k, v). (normalize_key ud k, v)) (enrich_meta a)))"
    by (rule parse_row_Some)
  from parse_cells_keys [OF cells len] have "fst ` set r0 = normalize_key ud ` set hs" by simp
  with r show ?thesis by (simp add: keys_dict_update)
qed

lemma parse_row_value:
  assumes "ascii_stable ud" and "parse_row ud hs t = Some r" and "key \<notin> set meta_keys"
    and "\<forall>(h, cell) \<in> set (zip hs (tds t)). normalize_key ud h = key \<longrightarrow> td_img cell \<noteq> None"
  shows "\<forall>v. map_of r key = Some v \<longrightarrow> status_word v"
proof -
  from assms(2) obtain r0 a where len: "length (tds t) = length hs"
    and cells: "parse_cells ud hs (tds t) [] JNone = Some (r0, a)"
    and r: "r = dict_update r0 (py_dict (map (\<lambda>(k, v). (normalize_key ud k, v)) (enrich_meta a)))"
    by (rule parse_row_Some)
  have "\<forall>v. map_of [] key = Some v \<longrightarrow> status_word v" by simp
  from parse_cells_value [OF cells assms(4) this]
  have "\<forall>v. map_of r0 key = Some v \<longrightarrow> status_word v" .
  moreover from meta_keys_not_header [OF assms(1,3), of a] r
  have "map_of r key = map_of r0 key" by (simp add: map_of_dict_update_other)
  ultimately show ?thesis by simp
qed

lemma map_filter_mem:
  "y \<in> set (List.map_filter f xs) \<Longrightarrow> \<exists>x \<in> set xs. f x = Some y"
  by (induction xs) (auto split: option.splits)

lemma statuses_parse_and_enrich:
  assumes "validate_table (Some tb)" and "trs tb = header_row # data_rows"
  shows "statuses (parse_and_enrich ud lib (Some tb))
     = List.map_filter (parse_row ud (th_texts header_row)) data_rows"
  using assms by (simp add: parse_and_enrich_def)

lemma normalize_Autorizador:
  assumes "ascii_stable ud"
  shows "normalize_key ud (ascii ''Autorizador'') = ascii ''autorizador''"
proof -
  have "list_all (\<lambda>c. c < 128) (ascii ''Autorizador'')" by code_simp
  then have "\<forall>c \<in> set (ascii ''Autorizador''). c < 128" by (simp only: list_all_iff)
  from normalize_key_ascii [OF assms this]
  have "normalize_key ud (ascii ''Autorizador'')
      = lower (strip_underscores (sub_underscore_runs (sub_non_alnum (ascii ''Autorizador''))))" .
  also have "\<dots> = ascii ''autorizador''" by code_simp
  finally show ?thesis .
qed

lemma normalize_Status:
  assumes "ascii_stable ud"
  shows "normalize_key ud (ascii ''Status'') = ascii ''status''"
proof -
  have "list_all (\<lambda>c. c < 128) (ascii ''Status'')" by code_simp
  then have "\<forall>c \<in> set (ascii ''Status''). c < 128" by (simp only: list_all_iff)
  from normalize_key_ascii [OF assms this]
  have "normalize_key ud (ascii ''Status'')
      = lower (strip_underscores (sub_underscore_runs (sub_non_alnum (ascii ''Status''))))" .
  also have "\<dots> = ascii ''status''" by code_simp
  finally show ?thesis .
qed

lemma status_not_meta_key: "ascii ''status'' \<notin> set meta_keys"
  by code_simp

text \<open>
  C7 as stated fails: a table whose header row has \<open>Autorizador\<close> and another label, but no
  \<open>Status\<close>, passes validation, and its rows have no \<open>status\<close> key.
\<close>

theorem validated_table_without_status:
  "validate_table (Some sample_table_no_status)
   \<and> success (parse_and_enrich sample_unicodedata sample_lib (Some sample_table_no_status))
   \<and> statuses (parse_and_enrich sample_unicodedata sample_lib (Some sample_table_no_status))
       = [row_no_status]
   \<and> map_of row_no_status (ascii ''status'') = None"
  by code_simp

text \<open>
  C7, amended. Every Extracted Row of a table that passes validation comes from a data row
  and has, for every header label, the key the label normalizes to: an \<open>autorizador\<close> key
  when \<open>Autorizador\<close> is among the labels and a \<open>status\<close> key when \<open>Status\<close> is (validation
  asks for one of the two only). The value under \<open>status\<close> is one of \<open>verde\<close>, \<open>amarelo\<close>,
  \<open>vermelho\<close>, \<open>cinza\<close>, \<open>desconhecido\<close> when every cell of the row under a header that
  normalizes to \<open>status\<close> embeds an image.
\<close>

theorem extracted_row_keys:
  assumes "ascii_stable ud"
    and "validate_table (Some tb)"
    and "trs tb = header_row # data_rows"
    and "r \<in> set (statuses (parse_and_enrich ud lib (Some tb)))"
  shows "(\<exists>t \<in> set data_rows. parse_row ud (th_texts header_row) t = Some r)
     \<and> (\<forall>h \<in> set (th_texts header_row). normalize_key ud h \<in> fst ` set r)
     \<and> (ascii ''Autorizador'' \<in> set (th_texts header_row) \<longrightarrow> ascii ''autorizador'' \<in> fst ` set r)
     \<and> (ascii ''Status'' \<in> set (th_texts header_row) \<longrightarrow> ascii ''status'' \<in> fst ` set r)
     \<and> (\<forall>t \<in> set data_rows.
          parse_row ud (th_texts header_row) t = Some r
          \<and> ascii ''Status'' \<in> set (th_texts header_row)
          \<and> (\<forall>(h, cell) \<in> set (zip (th_texts header_row) (tds t)).
                normalize_key ud h = ascii ''status'' \<longrightarrow> td_img cell \<noteq> None)
          \<longrightarrow> (\<exists>w \<in> set status_words. map_of r (ascii ''status'') = Some (JStr w)))"
proof -
  define hs where "hs = th_texts header_row"
  define kA where "kA = ascii ''autorizador''"
  define kS where "kS = ascii ''status''"
  define lA where "lA = ascii ''Autorizador''"
  define lS where "lS = ascii ''Status''"
  have nA: "normalize_key ud lA = kA" unfolding lA_def kA_def by (rule normalize_Autorizador [OF assms(1)])
  have nS: "normalize_key ud lS = kS" unfolding lS_def kS_def by (rule normalize_Status [OF assms(1)])
  have mS: "kS \<notin> set meta_keys" unfolding kS_def by (rule status_not_meta_key)
  from assms(4) have "r \<in> set (List.map_filter (parse_row ud hs) data_rows)"
    unfolding statuses_parse_and_enrich [OF assms(2,3)] hs_def .
  then have e: "\<exists>t \<in> set data_rows. parse_row ud hs t = Some r" by (rule map_filter_mem)
  then obtain t0 where t0: "parse_row ud hs t0 = Some r" by (rule bexE)
  note keys = parse_row_keys [OF t0]
  have 1: "\<forall>h \<in> set hs. normalize_key ud h \<in> fst ` set r"
  proof
    fix h assume "h \<in> set hs"
    then have "normalize_key ud h \<in> normalize_key ud ` set hs" by (rule imageI)
    with keys show "normalize_key ud h \<in> fst ` set r" by (rule subsetD)
  qed
  have 2: "lA \<in> set hs \<longrightarrow> kA \<in> fst ` set r"
  proof
    assume "lA \<in> set hs"
    with 1 have "normalize_key ud lA \<in> fst ` set r" by (rule bspec)
    then show "kA \<in> fst ` set r" by (simp only: nA)
  qed
  have 3: "lS \<in> set hs \<longrightarrow> kS \<in> fst ` set r"
  proof
    assume "lS \<in> set hs"
    with 1 have "normalize_key ud lS \<in> fst ` set r" by (rule bspec)
    then show "kS \<in> fst ` set r" by (simp only: nS)
  qed
  have 4: "\<forall>t \<in> set data_rows. parse_row ud hs t = Some r \<and> lS \<in> set hs
      \<and> (\<forall>(h, cell) \<in> set (zip hs (tds t)). normalize_key ud h = kS \<longrightarrow> td_img cell \<noteq> None)
      \<longrightarrow> (\<exists>w \<in> set status_words. map_of r kS = Some (JStr w))"
  proof (intro ballI impI)
    fix t
    assume a: "parse_row ud hs t = Some r \<and> lS \<in> set hs
      \<and> (\<forall>(h, cell) \<in> set (zip hs (tds t)). normalize_key ud h = kS \<longrightarrow> td_img cell \<noteq> None)"
    then have p: "parse_row ud hs t = Some r" and l: "lS \<in> set hs"
      and i: "\<forall>(h, cell) \<in> set (zip hs (tds t)). normalize_key ud h = kS \<longrightarrow> td_img cell \<noteq> None"
      by (rule conjunct1, rule conjunct2 [THEN conjunct1], rule conjunct2 [THEN conjunct2])
    from 3 l have "kS \<in> fst ` set r" by (rule mp)
    then have "map_of r kS \<noteq> None" by (simp only: map_of_eq_None_iff not_not)
    then obtain v where v: "map_of r kS = Some v" by (cases "map_of r kS") simp_all
    from parse_row_value [OF assms(1) p mS i] v have "status_word v" by (simp only: simp_thms)
    then obtain w where "w \<in> set status_words" "v = JStr w"
      unfolding status_word_def by (rule bexE)
    with v show "\<exists>w \<in> set status_words. map_of r kS = Some (JStr w)" by (intro bexI [of _ w]) simp_all
  qed
  show ?thesis
    using e 1 2 3 4 unfolding hs_def kA_def kS_def lA_def lS_def
    by (intro conjI) assumption+
qed

theorem extracted_row_keys_witness:
  "ascii_stable sample_unicodedata \<and> validate_table (Some sample_table)
   \<and> statuses (parse_and_enrich sample_unicodedata sample_lib (Some sample_table))
       = [row_SVAN, row_MA]
   \<and> map_of row_SVAN (ascii ''autorizador'') = Some (JStr (ascii ''SVAN''))
   \<and> map_of row_SVAN (ascii ''status'') = Some (JStr (ascii ''verde''))
   \<and> status_word (JStr (ascii ''verde''))"
proof -
  have 1: "validate_table (Some sample_table)" by code_simp
  have 2: "trs sample_table
      = \<lparr> th_texts = [ascii ''Autorizador'', ascii ''Status''], tds = [] \<rparr>
        # [\<lparr> th_texts = [], tds = [text_cell (ascii ''SVAN''),
                                   img_cell (ascii ''imagens/bola_verde_P.png'')] \<rparr>,
           \<lparr> th_texts = [], tds = [text_cell (ascii ''MA''),
                                   img_cell (ascii ''imagens/bola_amarela_P.png'')] \<rparr>]"
    by (simp add: sample_table_def)
  have 3: "statuses (parse_and_enrich sample_unicodedata sample_lib (Some sample_table))
       = [row_SVAN, row_MA]"
    by code_simp
  then have 4: "row_SVAN \<in> set (statuses (parse_and_enrich sample_unicodedata sample_lib
      (Some sample_table)))" by simp
  have 5: "map_of row_SVAN (ascii ''autorizador'') = Some (JStr (ascii ''SVAN''))" by code_simp
  have 6: "map_of row_SVAN (ascii ''status'') = Some (JStr (ascii ''verde''))" by code_simp
  have 7: "status_word (JStr (ascii ''verde''))"
  proof -
    have "ascii ''verde'' \<in> set status_words" by code_simp
    then show ?thesis unfolding status_word_def by (intro bexI [of _ "ascii ''verde''"]) simp_all
  qed
  show ?thesis
    using extracted_row_keys [OF sample_unicodedata_stable 1 2 4]
      sample_unicodedata_stable 1 3 5 6 7
    by (intro conjI) assumption+
qed

text \<open>
  C8 on the identifier \<open>MA\<close>, which is no key of the reference data and is contained in
  the lists of \<open>SVAN\<close> and of \<open>SVC-RS\<close>, in this order: enrichment attaches the single
  field \<open>relacionado_a\<close>, with the code of the last containing entry, \<open>SVC-RS\<close>, and not
  that of the first, \<open>SVAN\<close>.
\<close>

theorem related_entry_is_last_match:
  "map_of AUTORIZADOR_INFO (ascii ''MA'') = None
   \<and> map fst (filter (\<lambda>(code, info). entry_contains info (JStr (ascii ''MA''))) AUTORIZADOR_INFO)
       = [ascii ''SVAN'', ascii ''SVC-RS'']
   \<and> enrich_meta (JStr (ascii ''MA'')) = [(ascii ''relacionado_a'', JStr (ascii ''SVC-RS''))]
   \<and> statuses (parse_and_enrich sample_unicodedata sample_lib (Some sample_table))
       = [row_SVAN, row_MA]
   \<and> map_of row_MA (ascii ''relacionado_a'') = Some (JStr (ascii ''SVC-RS''))"
  by code_simp


end
